theory Spec2Isabelle
  imports
    Main
    "HOL-Library.Multiset"
    "HOL-Library.Char_ord"
    "HOL-Library.List_Lexorder"
    "HOL-Library.AList"
begin

section \<open>Strings\<close>

text \<open>
  JavaScript strings are modelled as \<^typ>\<open>string\<close>, one \<^typ>\<open>char\<close> per UTF-16 code
  unit; the model therefore covers the strings whose code units are below 256.
\<close>

definition startsWith :: "string \<Rightarrow> string \<Rightarrow> bool" where
  "startsWith p s = (take (length p) s = p)"

definition endsWith :: "string \<Rightarrow> string \<Rightarrow> bool" where
  "endsWith p s = (length p \<le> length s \<and> drop (length s - length p) s = p)"

definition LF :: char where "LF = CHR 0x0A"

definition CR :: char where "CR = CHR 0x0D"

text \<open>A number as a template literal prints it: its decimal digits.\<close>

definition digit :: "nat \<Rightarrow> char" where
  "digit n = ''0123456789'' ! n"

function showNat :: "nat \<Rightarrow> string" where
  "showNat n = (if n < 10 then [digit n] else showNat (n div 10) @ [digit (n mod 10)])"
  by pat_completeness auto
termination
  by (relation "measure id") auto

declare showNat.simps [simp del]

text \<open>\<open>findSub p s\<close>: where \<open>p\<close> first occurs in \<open>s\<close>, if it does.\<close>

fun findSub :: "string \<Rightarrow> string \<Rightarrow> nat option" where
  "findSub p [] = (if p = [] then Some 0 else None)"
| "findSub p (c # cs) =
     (if startsWith p (c # cs) then Some 0 else map_option Suc (findSub p cs))"

text \<open>
  \<open>s.replace(p, r)\<close> for a string \<open>p\<close>, and \<open>r\<close> without a \<open>$\<close>: the first occurrence
  of \<open>p\<close> is replaced, and \<open>s\<close> is returned as it is when there is none.
\<close>

fun replaceFirst :: "string \<Rightarrow> string \<Rightarrow> string \<Rightarrow> string" where
  "replaceFirst p r [] = (if p = [] then r else [])"
| "replaceFirst p r (c # cs) =
     (if startsWith p (c # cs) then r @ drop (length p) (c # cs)
      else c # replaceFirst p r cs)"

text \<open>\<open>toLowerCase\<close>, on code units below 256: A to Z and the capital letters of Latin-1.\<close>

definition toLowerChar :: "char \<Rightarrow> char" where
  "toLowerChar c =
     (let n = (of_char c :: nat)
      in if (65 \<le> n \<and> n \<le> 90) \<or> (192 \<le> n \<and> n \<le> 222 \<and> n \<noteq> 215)
         then char_of (n + 32) else c)"

definition toLowerCase :: "string \<Rightarrow> string" where
  "toLowerCase s = map toLowerChar s"

text \<open>The characters of the class \<open>[<>:"/\|?*#^[\]]\<close>, which \<open>sessionSlug\<close> strips.\<close>

definition unsafeChars :: "char list" where
  "unsafeChars = [CHR ''<'', CHR ''>'', CHR '':'', CHR 0x22, CHR ''/'', CHR 0x5C, CHR ''|'',
     CHR ''?'', CHR ''*'', CHR ''#'', CHR ''^'', CHR ''['', CHR '']'']"

text \<open>What \<open>\s\<close> matches below 256; \<open>wordSep\<close> is the class \<open>[\s_-]\<close>.\<close>

definition whitespace :: "char \<Rightarrow> bool" where
  "whitespace c = (c \<in> set [CHR 0x09, CHR 0x0A, CHR 0x0B, CHR 0x0C, CHR 0x0D, CHR 0x20, CHR 0xA0])"

definition wordSep :: "char \<Rightarrow> bool" where
  "wordSep c = (whitespace c \<or> c = CHR ''_'' \<or> c = CHR ''-'')"

text \<open>
  \<open>s.split(/[\s_-]+/)\<close>, for any class: the pieces between runs of separators, the
  empty piece before a leading run and after a trailing one included.
\<close>

function splitRuns :: "(char \<Rightarrow> bool) \<Rightarrow> string \<Rightarrow> string list" where
  "splitRuns sep [] = [[]]"
| "splitRuns sep (c # cs) =
     (if sep c then [] # splitRuns sep (dropWhile sep cs)
      else (case splitRuns sep cs of [] \<Rightarrow> [[c]] | w # ws \<Rightarrow> (c # w) # ws))"
  by pat_completeness auto
termination
  by (relation "measure (\<lambda>(sep, s). length s)") (auto simp: length_dropWhile_le less_Suc_eq_le)

text \<open>\<open>ws.join(d)\<close>.\<close>

fun joinWith :: "string \<Rightarrow> string list \<Rightarrow> string" where
  "joinWith d [] = []"
| "joinWith d [w] = w"
| "joinWith d (w # ws) = w @ d @ joinWith d ws"

text \<open>\<open>s.replace(/-+/g, "-")\<close> and \<open>s.replace(/^-|-$/g, "")\<close>.\<close>

fun collapseDashes :: "string \<Rightarrow> string" where
  "collapseDashes (a # b # cs) =
     (if a = CHR ''-'' \<and> b = CHR ''-'' then collapseDashes (b # cs) else a # collapseDashes (b # cs))"
| "collapseDashes cs = cs"

definition trimDash :: "string \<Rightarrow> string" where
  "trimDash s =
     (let t = (if s \<noteq> [] \<and> hd s = CHR ''-'' then tl s else s)
      in if t \<noteq> [] \<and> last t = CHR ''-'' then butlast t else t)"

text \<open>\<open>s.lastIndexOf(c)\<close>: the last position of \<open>c\<close>, or -1.\<close>

fun lastIndexOf :: "char \<Rightarrow> string \<Rightarrow> int" where
  "lastIndexOf c [] = -1"
| "lastIndexOf c (x # xs) =
     (let r = lastIndexOf c xs in if r \<ge> 0 then r + 1 else if x = c then 0 else -1)"


section \<open>The durable write queue (plugin/queue.ts)\<close>

text \<open>A queue item; its fields \<open>id\<close> and \<open>type\<close> are \<open>id_q\<close> and \<open>type_q\<close> here.\<close>

datatype qtype = Create | Update | Delete

record QueueItem =
  id_q :: string
  type_q :: qtype
  path :: string
  content :: string
  retries :: nat
  createdAt :: int

text \<open>
  The queue directory: the files in the order \<open>readdir\<close> lists them, each with its
  name and what \<open>JSON.parse\<close> of its text gives (\<open>None\<close> when the file cannot be read or
  parsed). File names are unique in a directory. The directory is taken to exist and
  to be listable, as it is once \<open>ensureDir\<close> has run.
\<close>

type_synonym qfile = "string \<times> QueueItem option"
type_synonym qdir = "qfile list"

definition fileName :: "string \<Rightarrow> string" where
  "fileName i = i @ ''.json''"

text \<open>\<open>writeFile\<close> replaces the file of that name, or adds a new one.\<close>

fun writeFile :: "string \<Rightarrow> QueueItem option \<Rightarrow> qdir \<Rightarrow> qdir" where
  "writeFile n c [] = [(n, c)]"
| "writeFile n c (f # fs) = (if fst f = n then (n, c) # fs else f # writeFile n c fs)"

definition unlink :: "string \<Rightarrow> qdir \<Rightarrow> qdir" where
  "unlink n d = filter (\<lambda>f. fst f \<noteq> n) d"

text \<open>\<open>enqueue\<close>: \<open>uuid\<close> is the value of \<open>randomUUID()\<close>, \<open>now\<close> that of \<open>Date.now()\<close>.\<close>

definition enqueue :: "string \<Rightarrow> int \<Rightarrow> qtype \<Rightarrow> string \<Rightarrow> string \<Rightarrow> qdir \<Rightarrow> qdir" where
  "enqueue uuid now t p c d =
     writeFile (fileName uuid)
       (Some \<lparr>id_q = uuid, type_q = t, path = p, content = c, retries = 0, createdAt = now\<rparr>) d"

text \<open>
  \<open>readQueue\<close>: the \<open>.json\<close> files that parse, sorted by the comparator
  \<open>a.createdAt - b.createdAt\<close>; \<open>Array.prototype.sort\<close> is stable.
\<close>

definition parsed :: "qdir \<Rightarrow> QueueItem list" where
  "parsed d = List.map_filter snd (filter (\<lambda>f. endsWith ''.json'' (fst f)) d)"

definition readQueue :: "qdir \<Rightarrow> QueueItem list" where
  "readQueue d = sort_key createdAt (parsed d)"

definition dequeue :: "string \<Rightarrow> qdir \<Rightarrow> qdir" where
  "dequeue i d = unlink (fileName i) d"

definition updateRetries :: "QueueItem \<Rightarrow> qdir \<Rightarrow> qdir" where
  "updateRetries item d =
     writeFile (fileName (id_q item)) (Some (item\<lparr>retries := retries item + 1\<rparr>)) d"

definition MAX_RETRIES :: nat where
  "MAX_RETRIES = 50"

definition shouldDiscard :: "QueueItem \<Rightarrow> bool" where
  "shouldDiscard item = (retries item \<ge> MAX_RETRIES)"

text \<open>
  A queue directory as \<open>enqueue\<close> and \<open>updateRetries\<close> leave it: file names are
  unique, and a file that parses is named after the id of its record.
\<close>

definition wfQueue :: "qdir \<Rightarrow> bool" where
  "wfQueue d =
     (distinct (map fst d)
      \<and> list_all (\<lambda>f. case snd f of None \<Rightarrow> True | Some x \<Rightarrow> fst f = fileName (id_q x)) d)"

section \<open>The note sink client and the queue processor (plugin/obsidian.ts)\<close>

datatype httpMethod = GET | PUT | DELETE

record request =
  reqMethod :: httpMethod
  reqPath :: string
  reqBody :: string

record response =
  status :: nat
  responseText :: string

definition ok :: "response \<Rightarrow> bool" where
  "ok r = (200 \<le> status r \<and> status r \<le> 299)"

text \<open>
  \<open>fetch\<close> is a parameter: from the state of the network and the remote store it gives
  the response, or \<open>None\<close> when the call throws (connection failure, timeout), and the
  next state.
\<close>

type_synonym 'w fetch = "'w \<Rightarrow> request \<Rightarrow> response option \<times> 'w"

text \<open>
  The state: the module variable \<open>available\<close>, the queue directory, the network, and
  a log of what was done, in order; the log is only written, never read.
\<close>

datatype effect =
    HealthChecked bool
  | Sent QueueItem bool
  | Got string
  | Dequeued string
  | Retried string

record 'w client =
  available :: bool
  queue :: qdir
  net :: 'w
  log :: "effect list"

definition doFetch :: "'w fetch \<Rightarrow> request \<Rightarrow> 'w client \<Rightarrow> response option \<times> 'w client" where
  "doFetch f r s = (case f (net s) r of (res, w) \<Rightarrow> (res, s\<lparr>net := w\<rparr>))"

definition healthCheck :: "'w fetch \<Rightarrow> 'w client \<Rightarrow> bool \<times> 'w client" where
  "healthCheck f s =
     (case doFetch f \<lparr>reqMethod = GET, reqPath = ''/'', reqBody = ''''\<rparr> s of
        (res, s1) \<Rightarrow>
          let a = (case res of Some r \<Rightarrow> ok r | None \<Rightarrow> False)
          in (a, s1\<lparr>available := a, log := log s1 @ [HealthChecked a]\<rparr>))"

text \<open>
  The path of a note in a request; \<open>encodeURIComponent\<close> is left out, and so is a
  failure of \<open>res.text()\<close>, which gives \<open>null\<close> as a failed call does.
\<close>

definition vault :: "string \<Rightarrow> string" where
  "vault p = ''/vault/'' @ p"

definition obsidianPut :: "'w fetch \<Rightarrow> string \<Rightarrow> string \<Rightarrow> 'w client \<Rightarrow> bool \<times> 'w client" where
  "obsidianPut f p c s =
     (case doFetch f \<lparr>reqMethod = PUT, reqPath = vault p, reqBody = c\<rparr> s of
        (res, s1) \<Rightarrow> ((case res of Some r \<Rightarrow> ok r | None \<Rightarrow> False), s1))"

definition obsidianGet :: "'w fetch \<Rightarrow> string \<Rightarrow> 'w client \<Rightarrow> string option \<times> 'w client" where
  "obsidianGet f p s =
     (case doFetch f \<lparr>reqMethod = GET, reqPath = vault p, reqBody = ''''\<rparr> s of
        (res, s1) \<Rightarrow>
          ((case res of Some r \<Rightarrow> if \<not> ok r then None else Some (responseText r) | None \<Rightarrow> None),
           s1\<lparr>log := log s1 @ [Got p]\<rparr>))"

definition obsidianDelete :: "'w fetch \<Rightarrow> string \<Rightarrow> 'w client \<Rightarrow> bool \<times> 'w client" where
  "obsidianDelete f p s =
     (case doFetch f \<lparr>reqMethod = DELETE, reqPath = vault p, reqBody = ''''\<rparr> s of
        (res, s1) \<Rightarrow> ((case res of Some r \<Rightarrow> ok r \<or> status r = 404 | None \<Rightarrow> False), s1))"

definition processItem :: "'w fetch \<Rightarrow> QueueItem \<Rightarrow> 'w client \<Rightarrow> bool \<times> 'w client" where
  "processItem f item s =
     (case (if type_q item = Delete then obsidianDelete f (path item) s
            else obsidianPut f (path item) (content item) s) of
        (b, s1) \<Rightarrow> (b, s1\<lparr>log := log s1 @ [Sent item b]\<rparr>))"

definition dequeueS :: "string \<Rightarrow> 'w client \<Rightarrow> 'w client" where
  "dequeueS i s = s\<lparr>queue := dequeue i (queue s), log := log s @ [Dequeued i]\<rparr>"

definition updateRetriesS :: "QueueItem \<Rightarrow> 'w client \<Rightarrow> 'w client" where
  "updateRetriesS item s =
     s\<lparr>queue := updateRetries item (queue s), log := log s @ [Retried (id_q item)]\<rparr>"

text \<open>The \<open>for\<close> loop of \<open>processQueue\<close>; the \<open>return\<close> in its failure branch ends it.\<close>

fun processItems :: "'w fetch \<Rightarrow> QueueItem list \<Rightarrow> 'w client \<Rightarrow> 'w client" where
  "processItems f [] s = s"
| "processItems f (item # rest) s =
     (if shouldDiscard item then processItems f rest (dequeueS (id_q item) s)
      else
        (case processItem f item s of
           (b, s1) \<Rightarrow>
             if b then processItems f rest (dequeueS (id_q item) s1)
             else updateRetriesS item (s1\<lparr>available := False\<rparr>)))"

definition processQueue :: "'w fetch \<Rightarrow> 'w client \<Rightarrow> 'w client" where
  "processQueue f s =
     (if \<not> available s then
        (case healthCheck f s of
           (b, s1) \<Rightarrow> if \<not> b then s1 else processItems f (readQueue (queue s1)) s1)
      else processItems f (readQueue (queue s)) s)"

text \<open>The part of the log written between two states.\<close>

definition since :: "'w client \<Rightarrow> 'w client \<Rightarrow> effect list" where
  "since s s' = drop (length (log s)) (log s')"

text \<open>The items handed to the sink, in the order of the calls.\<close>

fun sentItems :: "effect list \<Rightarrow> QueueItem list" where
  "sentItems [] = []"
| "sentItems (Sent x b # es) = x # sentItems es"
| "sentItems (e # es) = sentItems es"

text \<open>
  What can be done with the client: the calls it offers and the processor tick. Its
  reachable states are those that sequences of these steps lead to.
\<close>

datatype action = DoHealthCheck | DoPut string string | DoGet string | DoDelete string | DoTick

definition clientStep :: "'w fetch \<Rightarrow> action \<Rightarrow> 'w client \<Rightarrow> 'w client" where
  "clientStep f a s =
     (case a of
        DoHealthCheck \<Rightarrow> snd (healthCheck f s)
      | DoPut p c \<Rightarrow> snd (obsidianPut f p c s)
      | DoGet p \<Rightarrow> snd (obsidianGet f p s)
      | DoDelete p \<Rightarrow> snd (obsidianDelete f p s)
      | DoTick \<Rightarrow> processQueue f s)"

section \<open>Splitting a document into parts (lib/splitter.ts)\<close>

record SplitResult =
  markdown :: string
  partNumber :: nat
  totalParts :: nat

text \<open>
  The match of \<open>/^---\n([\s\S]*?)\n---\n/\<close>: the captured frontmatter and what follows
  the whole match.
\<close>

definition fence :: string where
  "fence = ''---'' @ [LF]"

definition frontmatterMatch :: "string \<Rightarrow> (string \<times> string) option" where
  "frontmatterMatch md =
     (if startsWith fence md then
        (case findSub (LF # fence) (drop 4 md) of
           None \<Rightarrow> None
         | Some p \<Rightarrow> Some (take p (drop 4 md), drop (p + 5) (drop 4 md)))
      else None)"

definition lineTerminator :: "char \<Rightarrow> bool" where
  "lineTerminator c = (c = LF \<or> c = CR)"

definition messageHeading :: "string \<Rightarrow> bool" where
  "messageHeading s = (startsWith ''### User ('' s \<or> startsWith ''### Assistant ('' s)"

text \<open>
  \<open>body.split(/(?=^### (?:User|Assistant) \()/m)\<close>: the body is cut before every
  heading that starts a line, except at position 0.
\<close>

fun splitSections :: "string \<Rightarrow> string list" where
  "splitSections [] = [[]]"
| "splitSections (c # cs) =
     (if lineTerminator c \<and> messageHeading cs then [c] # splitSections cs
      else (case splitSections cs of [] \<Rightarrow> [[c]] | w # ws \<Rightarrow> (c # w) # ws))"

definition chunk :: "string list \<Rightarrow> nat \<Rightarrow> nat \<Rightarrow> string list" where
  "chunk messageSections maxMessages i =
     (let start = i * maxMessages;
          finish = min (start + maxMessages) (length messageSections)
      in take (finish - start) (drop start messageSections))"

definition partBody :: "string \<Rightarrow> string list \<Rightarrow> nat \<Rightarrow> nat \<Rightarrow> string" where
  "partBody headerSection messageSections maxMessages i =
     (if i = 0 then headerSection @ concat (chunk messageSections maxMessages i)
      else concat (chunk messageSections maxMessages i))"

definition partFrontmatter :: "string \<Rightarrow> nat \<Rightarrow> nat \<Rightarrow> string" where
  "partFrontmatter frontmatter i nParts =
     frontmatter @ [LF] @ ''part: '' @ showNat (i + 1) @ [LF] @ ''total_parts: '' @ showNat nParts"

text \<open>
  \<open>None\<close>: the call does not return (with \<open>maxMessages = 0\<close> and a message section,
  \<open>totalParts\<close> is \<open>Infinity\<close> and the loop has no end).
\<close>

definition splitIfNeeded :: "string \<Rightarrow> nat \<Rightarrow> SplitResult list option" where
  "splitIfNeeded md maxMessages =
     (case frontmatterMatch md of
        None \<Rightarrow> Some [\<lparr>markdown = md, partNumber = 1, totalParts = 1\<rparr>]
      | Some (frontmatter, docBody) \<Rightarrow>
          let sections = splitSections docBody;
              headerSection = hd sections;
              messageSections = tl sections
          in if length messageSections \<le> maxMessages
             then Some [\<lparr>markdown = md, partNumber = 1, totalParts = 1\<rparr>]
             else if maxMessages = 0 then None
             else
               let nParts = (length messageSections + maxMessages - 1) div maxMessages
               in Some (map (\<lambda>i.
                    \<lparr>markdown = fence @ partFrontmatter frontmatter i nParts @ [LF] @ fence
                        @ partBody headerSection messageSections maxMessages i,
                     partNumber = i + 1,
                     totalParts = nParts\<rparr>) [0..<nParts]))"

section \<open>Slugs (plugin/hooks.ts and the batch importer)\<close>

definition STOP_WORDS :: "string list" where
  "STOP_WORDS = [
  ''a'',''an'',''the'',''and'',''or'',''but'',''for'',''in'',''on'',''at'',''to'',''of'',''with'',''is'',''was'',
  ''are'',''were'',''be'',''been'',''being'',''have'',''has'',''had'',''do'',''does'',''did'',''will'',''would'',
  ''could'',''should'',''may'',''might'',''shall'',''can'',''this'',''that'',''these'',''those'',''it'',''its'',
  ''my'',''your'',''our'',''their'',''his'',''her'',''from'',''by'',''about'',''into'',''through'',''during'',
  ''before'',''after'',''above'',''below'',''between'',''under'',''again'',''further'',''then'',''once'',
  ''here'',''there'',''when'',''where'',''why'',''how'',''all'',''each'',''every'',''both'',''few'',''more'',
  ''most'',''other'',''some'',''such'',''no'',''nor'',''not'',''only'',''own'',''same'',''so'',''than'',''too'',
  ''very'',''just'',''because'',''as'',''until'',''while'',''also'',''i'',''me'',''we'',''you'',''he'',''she'',
  ''they'',''them'',''what'',''which'',''who'',''whom'',''let'',''lets'',''using'',''use'',''need'',''needs'']"


text \<open>
  What \<open>sessionSlug\<close> reads of a session: \<open>title\<close>, \<open>slug\<close> (here \<open>slug_s\<close>) and \<open>id\<close> (here
  \<open>id_s\<close>); an absent field is \<open>None\<close>. The two functions differ in their stop words only.
\<close>

record slugSource =
  title :: "string option"
  slug_s :: "string option"
  id_s :: string


definition rawName :: "'a slugSource_scheme \<Rightarrow> string" where
  "rawName s =
     (case title s of
        Some t \<Rightarrow> if t \<noteq> [] then t else (case slug_s s of Some g \<Rightarrow> if g \<noteq> [] then g else take 12 (id_s s) | None \<Rightarrow> take 12 (id_s s))
      | None \<Rightarrow> (case slug_s s of Some g \<Rightarrow> if g \<noteq> [] then g else take 12 (id_s s) | None \<Rightarrow> take 12 (id_s s)))"

definition slugWords :: "string list \<Rightarrow> string \<Rightarrow> string list" where
  "slugWords stop raw =
     filter (\<lambda>w. length w > 0 \<and> w \<notin> set stop)
       (splitRuns wordSep (filter (\<lambda>c. c \<notin> set unsafeChars) (toLowerCase raw)))"

definition slugOf :: "string list \<Rightarrow> string \<Rightarrow> string" where
  "slugOf stop raw =
     (let joined = trimDash (collapseDashes (joinWith ''-'' (slugWords stop raw)))
      in if length joined \<le> 40 then joined
         else
           let truncated = take 40 joined;
               lastDash = lastIndexOf (CHR ''-'') truncated
           in if lastDash > 10 then take (nat lastDash) truncated else truncated)"

definition sessionSlug :: "'a slugSource_scheme \<Rightarrow> string" where
  "sessionSlug s = slugOf STOP_WORDS (rawName s)"


section \<open>Session tracking (plugin/hooks.ts)\<close>

definition notePath :: "string \<Rightarrow> string \<Rightarrow> string \<Rightarrow> string \<Rightarrow> string" where
  "notePath pn date sl suffix =
     ''10-Projects/'' @ pn @ ''/sessions/'' @ take 7 date @ ''/'' @ take 2 (drop 8 date)
       @ ''-'' @ sl @ ''/'' @ suffix @ ''.md''"

record Session = slugSource +
  projectID :: string
  directory :: "string option"
  parentID :: "string option"
  timeCreated :: int
  timeUpdated :: "int option"
  timeCompleted :: "int option"

record 'e conversation =
  session :: Session
  convProjectName :: string
  projectPath :: string
  entries :: "'e list"

text \<open>A message, as far as the plugin reads it: its \<open>tokens\<close> (input, output).\<close>

type_synonym message = "(nat \<times> nat) option"

record SessionTracker =
  projectId :: string
  projectName :: string
  slug :: string
  summaryPath :: string
  messageCount :: nat
  lastMessageSync :: int
  foundInStorage :: bool

text \<open>
  The plugin's state: the two module-level maps (\<open>sessions\<close> in insertion order, as a
  \<open>Map\<close> iterates), and the \<open>enqueue\<close> calls issued so far, oldest first, each with
  its operation, path and content.
\<close>

type_synonym qop = "qtype \<times> string \<times> string"

record hooks =
  sessions :: "(string \<times> SessionTracker) list"
  deletionFailures :: "string \<rightharpoonup> nat"
  enqueued :: "qop list"

text \<open>
  What the handlers read: the upstream store (\<open>readMessages\<close> gives \<open>None\<close> when it
  throws), the note sink (\<open>sinkGet p\<close> is the result of \<open>obsidianGet(p)\<close>), the clock,
  and the document renderers, which are not modelled further.
\<close>

record 'e env =
  readSession :: "string \<Rightarrow> string \<Rightarrow> Session option"
  resolveProjectName :: "string \<Rightarrow> string"
  reconstructConversation :: "string \<Rightarrow> string \<Rightarrow> 'e conversation option"
  readMessages :: "string \<Rightarrow> message list option"
  sinkGet :: "string \<Rightarrow> string option"
  dateNow :: int
  formatDate :: "int \<Rightarrow> string"
  formatForObsidian :: "'e conversation \<Rightarrow> string"
  buildUpdatedSummary :: "'e conversation \<Rightarrow> nat \<Rightarrow> string"
  buildRawLogNote :: "'e conversation \<Rightarrow> nat \<Rightarrow> nat \<Rightarrow> string"

definition MESSAGE_DEBOUNCE_MS :: int where
  "MESSAGE_DEBOUNCE_MS = 30000"

definition DELETION_THRESHOLD :: nat where
  "DELETION_THRESHOLD = 3"

definition setTracker :: "string \<Rightarrow> SessionTracker \<Rightarrow> hooks \<Rightarrow> hooks" where
  "setTracker k t st = st\<lparr>sessions := AList.update k t (sessions st)\<rparr>"

definition enqueueAll :: "qop list \<Rightarrow> hooks \<Rightarrow> hooks" where
  "enqueueAll ops st = st\<lparr>enqueued := enqueued st @ ops\<rparr>"

definition escapeYaml :: "string \<Rightarrow> string" where
  "escapeYaml v =
     (if \<exists>c\<in>set v. c \<in> set [CHR 0x22, CHR '':'', CHR ''#'', LF, CHR ''['', CHR '']'']
      then [CHR 0x22]
        @ concat (map (\<lambda>c. if c = CHR 0x5C then [CHR 0x5C, CHR 0x5C]
                            else if c = CHR 0x22 then [CHR 0x5C, CHR 0x22] else [c]) v)
        @ [CHR 0x22]
      else v)"

definition buildSkeletonSummary ::
  "string \<Rightarrow> string \<Rightarrow> string \<Rightarrow> string \<Rightarrow> string \<Rightarrow> string \<Rightarrow> string" where
  "buildSkeletonSummary sessionId pn pp created ttl sl =
     joinWith [LF]
      [''---'',
       ''aliases: []'',
       ''tags: [type/session-log, type/summary]'',
       ''created: '' @ created,
       ''session_id: '' @ sessionId,
       ''project: '' @ escapeYaml pn,
       ''directory: '' @ escapeYaml pp,
       ''branch: '' @ [CHR 0x22, CHR 0x22],
       ''status: active'',
       ''agents: []'',
       ''models: []'',
       ''message_count: 0'',
       ''total_cost: 0.0000'',
       ''total_tokens: 0'',
       ''duration: '' @ [CHR 0x22] @ ''0s'' @ [CHR 0x22],
       ''files_changed: 0'',
       ''parent_session: '' @ [CHR 0x22, CHR 0x22],
       ''---'',
       [],
       ''# Session: '' @ ttl,
       [],
       ''**Project:** [['' @ pn @ '']] (`'' @ pp @ ''`)'',
       ''**Date:** '' @ created,
       ''**Messages:** 0'',
       ''**Duration:** 0s'',
       ''**Cost:** $0.0000'',
       [],
       ''## Links'',
       ''- **Raw Log**: See raw-log note(s) in this folder'',
       []]"

definition computeTotalTokens :: "'e env \<Rightarrow> string \<Rightarrow> nat option" where
  "computeTotalTokens e sessionId =
     map_option
       (\<lambda>ms. sum_list (map (\<lambda>m. case m of None \<Rightarrow> 0 | Some (i, out) \<Rightarrow> i + out) ms))
       (readMessages e sessionId)"

definition syncRawLog :: "'e env \<Rightarrow> 'e conversation \<Rightarrow> string \<Rightarrow> string \<Rightarrow> string \<Rightarrow> qop list" where
  "syncRawLog e conv pn created sl =
     (if entries conv = [] then []
      else
        (case splitIfNeeded (formatForObsidian e conv) 300 of
           None \<Rightarrow> []
         | Some splits \<Rightarrow>
             let nParts = max (length splits) 1
             in if nParts \<le> 1
                then [(Update, notePath pn created sl ''raw-log'', buildRawLogNote e conv 1 1)]
                else map (\<lambda>i. (Update, notePath pn created sl (''raw-log-part-'' @ showNat i),
                                buildRawLogNote e conv i nParts)) [1..<nParts + 1]))"

text \<open>
  \<open>handleRenameIfNeeded\<close> returns its result, the tracker as it leaves it, and the
  operations it enqueues, in order.
\<close>

definition handleRenameIfNeeded ::
  "SessionTracker \<Rightarrow> string \<Rightarrow> string \<Rightarrow> bool \<times> SessionTracker \<times> qop list" where
  "handleRenameIfNeeded tracker newTitle created =
     (let newSlug = sessionSlug \<lparr>title = Some newTitle, slug_s = None, id_s = []\<rparr>
      in if newSlug = slug tracker then (False, tracker, [])
         else
           let oldSlug = slug tracker;
               pn = projectName tracker
           in (True,
               tracker\<lparr>slug := newSlug, summaryPath := notePath pn created newSlug ''summary''\<rparr>,
               [(Delete, summaryPath tracker, []),
                (Delete, notePath pn created oldSlug ''raw-log'', [])]
               @ map (\<lambda>i. (Delete, notePath pn created oldSlug (''raw-log-part-'' @ showNat i), []))
                   [1..<21]))"

text \<open>The last loop of \<open>moveToTrash\<close>, from part \<open>i\<close> on; it breaks at the first absent part.\<close>

function trashParts :: "(string \<Rightarrow> string option) \<Rightarrow> string \<Rightarrow> nat \<Rightarrow> qop list" where
  "trashParts get sp i =
     (if i > 20 then []
      else
        let partPath = replaceFirst ''/summary.md'' (''/raw-log-part-'' @ showNat i @ ''.md'') sp
        in case get partPath of
             None \<Rightarrow> []
           | Some partContent \<Rightarrow>
               [(Create, replaceFirst ''/sessions/'' ''/trash/'' partPath, partContent),
                (Delete, partPath, [])]
               @ trashParts get sp (i + 1))"
  by pat_completeness auto
termination
  by (relation "measure (\<lambda>(get, sp, i). 21 - i)") auto

declare trashParts.simps [simp del]

definition moveToTrash :: "'e env \<Rightarrow> string \<Rightarrow> SessionTracker \<Rightarrow> qop list" where
  "moveToTrash e sessionId tracker =
     (let sp = summaryPath tracker;
          rawLogPath = replaceFirst ''/summary.md'' ''/raw-log.md'' sp
      in (case sinkGet e sp of
            None \<Rightarrow> []
          | Some summaryContent \<Rightarrow>
              [(Create, replaceFirst ''/sessions/'' ''/trash/'' sp, summaryContent),
               (Delete, sp, [])])
         @ (case sinkGet e rawLogPath of
              None \<Rightarrow> []
            | Some rawLogContent \<Rightarrow>
                [(Create, replaceFirst ''/sessions/'' ''/trash/'' rawLogPath, rawLogContent),
                 (Delete, rawLogPath, [])])
         @ trashParts (sinkGet e) sp 1)"

text \<open>\<open>deletionFailures.get(sessionId) || 0\<close>.\<close>

definition failureCount :: "hooks \<Rightarrow> string \<Rightarrow> nat" where
  "failureCount st sessionId = (case deletionFailures st sessionId of None \<Rightarrow> 0 | Some n \<Rightarrow> n)"

text \<open>The body of the loop of \<open>pollForDeletions\<close>, for the entry of one session.\<close>

definition pollSession :: "'e env \<Rightarrow> string \<Rightarrow> hooks \<Rightarrow> hooks" where
  "pollSession e sessionId st =
     (case map_of (sessions st) sessionId of
        None \<Rightarrow> st
      | Some tracker \<Rightarrow>
          (case readSession e sessionId (projectId tracker) of
             Some s \<Rightarrow>
               (setTracker sessionId (tracker\<lparr>foundInStorage := True\<rparr>) st)
                 \<lparr>deletionFailures := (deletionFailures st)(sessionId := None)\<rparr>
           | None \<Rightarrow>
               if foundInStorage tracker then
                 let failures = failureCount st sessionId + 1;
                     st1 = st\<lparr>deletionFailures := (deletionFailures st)(sessionId \<mapsto> failures)\<rparr>
                 in if failures \<ge> DELETION_THRESHOLD then
                      (enqueueAll (moveToTrash e sessionId tracker) st1)
                        \<lparr>sessions := AList.delete sessionId (sessions st1),
                         deletionFailures := (deletionFailures st1)(sessionId := None)\<rparr>
                    else st1
               else st))"

definition pollForDeletions :: "'e env \<Rightarrow> hooks \<Rightarrow> hooks" where
  "pollForDeletions e st = fold (pollSession e) (map fst (sessions st)) st"

text \<open>Every recorded failure count is 1 or 2: the invariant of the counter map.\<close>

definition countersBelowThreshold :: "hooks \<Rightarrow> bool" where
  "countersBelowThreshold st =
     (\<forall>k n. deletionFailures st k = Some n \<longrightarrow> 0 < n \<and> n < DELETION_THRESHOLD)"

text \<open>
  The event handlers. Each is modelled as run to its end without another handler in
  between; an exception inside the \<open>try\<close> leaves the state as it is at that point.
\<close>

definition onSessionCreated :: "'e env \<Rightarrow> Session \<Rightarrow> hooks \<Rightarrow> hooks" where
  "onSessionCreated e info st =
     (let pn = resolveProjectName e (projectID info);
          created = formatDate e (timeCreated info);
          sl = sessionSlug info;
          ttl = (case title info of
                   Some t \<Rightarrow> if t \<noteq> [] then t else take 12 (id_s info)
                 | None \<Rightarrow> take 12 (id_s info));
          sp = notePath pn created sl ''summary'';
          st1 = setTracker (id_s info)
                  \<lparr>projectId = projectID info, projectName = pn, slug = sl, summaryPath = sp,
                   messageCount = 0, lastMessageSync = 0, foundInStorage = False\<rparr> st
      in case directory info of
           None \<Rightarrow> st1
         | Some dir \<Rightarrow>
             enqueueAll [(Create, sp, buildSkeletonSummary (id_s info) pn dir created ttl sl)] st1)"

definition onSessionUpdated :: "'e env \<Rightarrow> Session \<Rightarrow> hooks \<Rightarrow> hooks" where
  "onSessionUpdated e info st =
     (case map_of (sessions st) (id_s info) of
        None \<Rightarrow> st
      | Some tracker \<Rightarrow>
          let created = formatDate e (timeCreated info);
              renamed = (case title info of
                           Some t \<Rightarrow> if t \<noteq> [] then handleRenameIfNeeded tracker t created
                                     else (False, tracker, [])
                         | None \<Rightarrow> (False, tracker, []));
              tracker1 = fst (snd renamed);
              st1 = enqueueAll (snd (snd renamed)) (setTracker (id_s info) tracker1 st)
          in (case reconstructConversation e (id_s info) (projectId tracker1) of
                None \<Rightarrow> st1
              | Some conv \<Rightarrow>
                  (case computeTotalTokens e (id_s info) of
                     None \<Rightarrow> st1
                   | Some totalTokens \<Rightarrow>
                       enqueueAll
                         [(Update, summaryPath tracker1, buildUpdatedSummary e conv totalTokens)]
                         (setTracker (id_s info)
                            (tracker1\<lparr>messageCount := length (entries conv)\<rparr>) st1))))"

definition onSessionIdle :: "'e env \<Rightarrow> string \<Rightarrow> hooks \<Rightarrow> hooks" where
  "onSessionIdle e sessionId st =
     (case map_of (sessions st) sessionId of
        None \<Rightarrow> st
      | Some tracker \<Rightarrow>
          let renamed =
                (case readSession e sessionId (projectId tracker) of
                   None \<Rightarrow> (False, tracker, [])
                 | Some fresh \<Rightarrow>
                     handleRenameIfNeeded (tracker\<lparr>foundInStorage := True\<rparr>)
                       (case title fresh of
                          Some t \<Rightarrow> if t \<noteq> [] then t
                                    else (case slug_s fresh of
                                            Some g \<Rightarrow> if g \<noteq> [] then g else id_s fresh
                                          | None \<Rightarrow> id_s fresh)
                        | None \<Rightarrow> (case slug_s fresh of
                                     Some g \<Rightarrow> if g \<noteq> [] then g else id_s fresh
                                   | None \<Rightarrow> id_s fresh))
                       (formatDate e (timeCreated fresh)));
              tracker1 = fst (snd renamed);
              st1 = enqueueAll (snd (snd renamed)) (setTracker sessionId tracker1 st)
          in (case reconstructConversation e sessionId (projectId tracker1) of
                None \<Rightarrow> st1
              | Some conv \<Rightarrow>
                  (case computeTotalTokens e sessionId of
                     None \<Rightarrow> st1
                   | Some totalTokens \<Rightarrow>
                       let tracker2 = tracker1\<lparr>messageCount := length (entries conv)\<rparr>;
                           created = formatDate e (timeCreated (session conv))
                       in enqueueAll
                            ((Update, summaryPath tracker2, buildUpdatedSummary e conv totalTokens)
                             # (if length (entries conv) > 0
                                then syncRawLog e conv (projectName tracker2) created (slug tracker2)
                                else []))
                            (setTracker sessionId tracker2 st1))))"

definition onCompacting :: "'e env \<Rightarrow> string \<Rightarrow> hooks \<Rightarrow> hooks" where
  "onCompacting e sessionId st =
     (case map_of (sessions st) sessionId of
        None \<Rightarrow> st
      | Some tracker \<Rightarrow>
          (case reconstructConversation e sessionId (projectId tracker) of
             None \<Rightarrow> st
           | Some conv \<Rightarrow>
               let created = formatDate e (timeCreated (session conv));
                   st1 = enqueueAll
                           (if length (entries conv) > 0
                            then syncRawLog e conv (convProjectName conv) created (slug tracker)
                            else []) st
               in (case computeTotalTokens e sessionId of
                     None \<Rightarrow> st1
                   | Some totalTokens \<Rightarrow>
                       setTracker sessionId (tracker\<lparr>messageCount := length (entries conv)\<rparr>)
                         (enqueueAll
                            [(Update, summaryPath tracker, buildUpdatedSummary e conv totalTokens)]
                            st1))))"

definition onMessageUpdated :: "'e env \<Rightarrow> string \<Rightarrow> hooks \<Rightarrow> hooks" where
  "onMessageUpdated e sessionId st =
     (case map_of (sessions st) sessionId of
        None \<Rightarrow> st
      | Some tracker \<Rightarrow>
          if dateNow e - lastMessageSync tracker < MESSAGE_DEBOUNCE_MS then st
          else
            let tracker1 = tracker\<lparr>lastMessageSync := dateNow e\<rparr>
            in (case readMessages e sessionId of
                  None \<Rightarrow> setTracker sessionId tracker1 st
                | Some messages \<Rightarrow>
                    setTracker sessionId (tracker1\<lparr>messageCount := length messages\<rparr>) st))"

text \<open>
  An event: its \<open>type\<close> and its \<open>properties\<close>, of which the handlers read \<open>info\<close> (a
  session), \<open>sessionID\<close>, or \<open>info.sessionID\<close> (of a message). A handler given
  properties without the field it reads changes nothing.
\<close>

datatype properties =
    SessionInfo Session
  | SessionID string
  | MessageInfo string
  | NoProperties

record event =
  type_e :: string
  properties :: properties

definition handleEvent :: "'e env \<Rightarrow> event \<Rightarrow> hooks \<Rightarrow> hooks" where
  "handleEvent e ev st =
     (if type_e ev = ''session.created'' then
        (case properties ev of SessionInfo info \<Rightarrow> onSessionCreated e info st | _ \<Rightarrow> st)
      else if type_e ev = ''session.updated'' then
        (case properties ev of SessionInfo info \<Rightarrow> onSessionUpdated e info st | _ \<Rightarrow> st)
      else if type_e ev = ''session.idle'' then
        (case properties ev of SessionID i \<Rightarrow> onSessionIdle e i st | _ \<Rightarrow> st)
      else if type_e ev = ''message.updated'' then
        (case properties ev of MessageInfo i \<Rightarrow> onMessageUpdated e i st | _ \<Rightarrow> st)
      else st)"

section \<open>Example data\<close>

definition exItemA :: QueueItem where
  "exItemA = \<lparr>id_q = ''a'', type_q = Update, path = ''n1'', content = ''x'', retries = 0, createdAt = 5\<rparr>"

definition exItemB :: QueueItem where
  "exItemB = \<lparr>id_q = ''b'', type_q = Delete, path = ''n2'', content = '''', retries = 0, createdAt = 5\<rparr>"

definition exDir :: qdir where
  "exDir = [(''b.json'', Some exItemB), (''a.json'', Some exItemA)]"

definition failFetch :: "unit fetch" where
  "failFetch w r = (None, w)"

definition exClient :: "unit client" where
  "exClient = \<lparr>available = True, queue = exDir, net = (), log = []\<rparr>"

definition exTracker :: SessionTracker where
  "exTracker = \<lparr>projectId = ''proj'', projectName = ''demo'', slug = ''fix-login-bug'',
     summaryPath = ''10-Projects/demo/sessions/2026-02/14-fix-login-bug/summary.md'',
     messageCount = 0, lastMessageSync = 0, foundInStorage = True\<rparr>"

definition exEnv :: "unit env" where
  "exEnv = \<lparr>readSession = (\<lambda>i p. None), resolveProjectName = (\<lambda>p. p),
     reconstructConversation = (\<lambda>i p. None), readMessages = (\<lambda>i. Some []),
     sinkGet = (\<lambda>p. if p = summaryPath exTracker then Some ''note'' else None),
     dateNow = 0, formatDate = (\<lambda>t. ''2026-02-14''), formatForObsidian = (\<lambda>c. []),
     buildUpdatedSummary = (\<lambda>c n. ''summary''), buildRawLogNote = (\<lambda>c i n. ''raw'')\<rparr>"

definition exHooks :: hooks where
  "exHooks = \<lparr>sessions = [(''S2'', exTracker)], deletionFailures = [''S2'' \<mapsto> 2], enqueued = []\<rparr>"

definition exHooksUnseen :: hooks where
  "exHooksUnseen =
     \<lparr>sessions = [(''S1'', exTracker\<lparr>foundInStorage := False\<rparr>)],
      deletionFailures = Map.empty, enqueued = []\<rparr>"

definition exSession :: Session where
  "exSession = \<lparr>title = Some ''Fix login bug'', slug_s = None, id_s = ''S1'',
     projectID = ''proj'', directory = Some ''/tmp/demo'', parentID = None,
     timeCreated = 0, timeUpdated = None, timeCompleted = None\<rparr>"

definition exConv :: "unit conversation" where
  "exConv = \<lparr>session = exSession, convProjectName = ''demo'', projectPath = ''/tmp/demo'',
     entries = []\<rparr>"

definition exEnvLive :: "unit env" where
  "exEnvLive = exEnv\<lparr>readSession := (\<lambda>i p. Some exSession),
     reconstructConversation := (\<lambda>i p. Some exConv)\<rparr>"

definition exHooksEmpty :: hooks where
  "exHooksEmpty = \<lparr>sessions = [], deletionFailures = Map.empty, enqueued = []\<rparr>"

definition okFetch :: "unit fetch" where
  "okFetch w r = (Some \<lparr>status = 200, responseText = ''ok''\<rparr>, w)"

definition exClientDown :: "unit client" where
  "exClientDown = \<lparr>available = False, queue = exDir, net = (), log = []\<rparr>"

definition exItemC :: QueueItem where
  "exItemC = \<lparr>id_q = ''c'', type_q = Update, path = ''n3'', content = ''y'', retries = 50, createdAt = 1\<rparr>"

definition exBody :: string where
  "exBody = ''# Log'' @ [LF]
     @ ''### User (1)'' @ [LF] @ ''a'' @ [LF]
     @ ''### Assistant (2)'' @ [LF] @ ''b'' @ [LF]
     @ ''### User (3)'' @ [LF] @ ''c'' @ [LF]"

definition exDoc :: string where
  "exDoc = fence @ ''t: 1'' @ [LF] @ fence @ exBody"










section \<open>Properties of the queue\<close>

text \<open>
  C5 (as the code has it): \<open>readQueue\<close> returns exactly the records of the \<open>.json\<close> files
  that parse, in ascending order of \<open>createdAt\<close>; records with the same \<open>createdAt\<close> keep
  the order in which the directory listing gave them (the id takes no part in the order).
\<close>

theorem readQueue_sorted_stable:
  "sorted (map createdAt (readQueue d))
   \<and> mset (readQueue d) = mset (parsed d)
   \<and> filter (\<lambda>x. createdAt x = k) (readQueue d) = filter (\<lambda>x. createdAt x = k) (parsed d)"
  by (simp add: readQueue_def sort_key_stable)

text \<open>
  C5 (as stated, refuted): two records written in the same millisecond come back in
  directory order, here with the larger id first.
\<close>

theorem readQueue_id_tiebreak_counterexample:
  "\<not> (createdAt (readQueue exDir ! 0) < createdAt (readQueue exDir ! 1)
      \<or> (createdAt (readQueue exDir ! 0) = createdAt (readQueue exDir ! 1)
          \<and> id_q (readQueue exDir ! 0) < id_q (readQueue exDir ! 1)))"
  by (simp add: readQueue_def parsed_def endsWith_def List.map_filter_def exDir_def
      exItemA_def exItemB_def)

section \<open>Properties of the processor\<close>

lemma sentItems_append: "sentItems (xs @ ys) = sentItems xs @ sentItems ys"
  by (induction xs rule: sentItems.induct) auto

lemma map_of_writeFile: "map_of (writeFile n c d) = (map_of d)(n \<mapsto> c)"
  by (induction d) (auto simp: fun_eq_iff)

lemma map_of_unlink: "map_of (unlink n d) = (map_of d)(n := None)"
  by (induction d) (auto simp: unlink_def fun_eq_iff)

lemma fileName_inj: "fileName i = fileName j \<longleftrightarrow> i = j"
  by (simp add: fileName_def)

lemma processItem_frame:
  "processItem f x s = (b, s1) \<Longrightarrow>
   available s1 = available s \<and> queue s1 = queue s \<and> log s1 = log s @ [Sent x b]"
  by (auto simp: processItem_def obsidianDelete_def obsidianPut_def doFetch_def
           split: prod.splits if_splits)

lemma healthCheck_frame:
  "healthCheck f s = (b, s1) \<Longrightarrow>
   available s1 = b \<and> queue s1 = queue s \<and> log s1 = log s @ [HealthChecked b]"
  by (auto simp: healthCheck_def doFetch_def Let_def split: prod.splits)

lemma processItems_unavailable: "\<not> available s \<Longrightarrow> \<not> available (processItems f items s)"
proof (induction items arbitrary: s)
  case Nil
  then show ?case by simp
next
  case (Cons x xs)
  obtain b s1 where p: "processItem f x s = (b, s1)" by (cases "processItem f x s")
  from processItem_frame[OF p] Cons.prems have "\<not> available s1" by simp
  with Cons p show ?case
    by (simp add: dequeueS_def updateRetriesS_def)
qed

lemma processItems_append:
  "available (processItems f pre s) \<Longrightarrow>
   processItems f (pre @ post) s = processItems f post (processItems f pre s)"
  by (induction pre arbitrary: s) (auto simp: updateRetriesS_def split: prod.splits)

lemma processItems_sent:
  "available (processItems f pre s) \<Longrightarrow>
   sentItems (log (processItems f pre s)) =
     sentItems (log s) @ filter (\<lambda>i. \<not> shouldDiscard i) pre"
proof (induction pre arbitrary: s)
  case Nil
  then show ?case by simp
next
  case (Cons x xs)
  show ?case
  proof (cases "shouldDiscard x")
    case True
    with Cons show ?thesis by (simp add: dequeueS_def sentItems_append)
  next
    case False
    obtain b s1 where p: "processItem f x s = (b, s1)" by (cases "processItem f x s")
    from Cons.prems False p have b: b
      by (auto simp: updateRetriesS_def split: if_splits)
    from processItem_frame[OF p] have l: "log s1 = log s @ [Sent x b]" by simp
    from Cons.prems False p b have "available (processItems f xs (dequeueS (id_q x) s1))"
      by simp
    from Cons.IH[OF this] False p b l show ?thesis
      by (simp add: dequeueS_def sentItems_append)
  qed
qed

lemma processItems_untouched:
  "n \<notin> (\<lambda>i. fileName (id_q i)) ` set items \<Longrightarrow>
   map_of (queue (processItems f items s)) n = map_of (queue s) n"
proof (induction items arbitrary: s)
  case Nil
  then show ?case by simp
next
  case (Cons x xs)
  obtain b s1 where p: "processItem f x s = (b, s1)" by (cases "processItem f x s")
  from processItem_frame[OF p] have q: "queue s1 = queue s" by simp
  from Cons.prems have n: "n \<noteq> fileName (id_q x)" 
    and r: "n \<notin> (\<lambda>i. fileName (id_q i)) ` set xs" by auto
  show ?case using Cons.IH[OF r] p q n
    by (simp add: dequeueS_def dequeue_def map_of_unlink updateRetriesS_def updateRetries_def map_of_writeFile)
qed

text \<open>
  C1: when the pending list is \<open>pre @ x # post\<close>, no sink call for an item of \<open>pre\<close>
  failed, and the sink call for \<open>x\<close> fails, the tick ends in the state reached after
  \<open>pre\<close> with the flag cleared and the retry count of \<open>x\<close> incremented. The items were
  sent in list order, \<open>x\<close> last; the log ends with the failed call and the retry, so no
  item of \<open>post\<close> is sent, dequeued or rewritten, and its file is as at the start of the
  tick.
\<close>

theorem processQueue_halts_at_first_failure:
  fixes f :: "'w fetch"
  defines "start s \<equiv> (if available s then s else snd (healthCheck f s))"
  assumes armed: "available (start s)"
    and pending: "readQueue (queue (start s)) = pre @ x # post"
    and earlier: "available (processItems f pre (start s))"
    and live: "\<not> shouldDiscard x"
    and fails: "\<not> fst (processItem f x (processItems f pre (start s)))"
  shows "processQueue f s =
           updateRetriesS x ((snd (processItem f x (processItems f pre (start s))))\<lparr>available := False\<rparr>)
         \<and> \<not> available (processQueue f s)
         \<and> log (processQueue f s) =
             log (processItems f pre (start s)) @ [Sent x False, Retried (id_q x)]
         \<and> sentItems (log (processQueue f s)) =
             sentItems (log (start s)) @ filter (\<lambda>i. \<not> shouldDiscard i) pre @ [x]
         \<and> queue (processQueue f s) = updateRetries x (queue (processItems f pre (start s)))
         \<and> (\<forall>y\<in>set post. id_q y \<notin> id_q ` set (pre @ [x]) \<longrightarrow>
               map_of (queue (processQueue f s)) (fileName (id_q y)) =
               map_of (queue (start s)) (fileName (id_q y)))"
proof -
  let ?s0 = "start s"
  let ?sk = "processItems f pre ?s0"
  obtain b s1 where p: "processItem f x ?sk = (b, s1)" by (cases "processItem f x ?sk")
  with fails have b: "\<not> b" by simp
  note fr = processItem_frame[OF p]
  have pq: "processQueue f s = processItems f (pre @ x # post) ?s0"
    using armed pending
    by (auto simp: processQueue_def start_def split: prod.splits dest: healthCheck_frame)
  have run: "processItems f (pre @ x # post) ?s0 = updateRetriesS x (s1\<lparr>available := False\<rparr>)"
    using processItems_append[OF earlier, of "x # post"] live p b by simp
  have 1: "processQueue f s = updateRetriesS x ((snd (processItem f x ?sk))\<lparr>available := False\<rparr>)"
    using pq run p by simp
  have 2: "\<not> available (processQueue f s)"
    using pq run by (simp add: updateRetriesS_def)
  have 3: "log (processQueue f s) = log ?sk @ [Sent x False, Retried (id_q x)]"
    using pq run fr b by (simp add: updateRetriesS_def)
  have 4: "sentItems (log (processQueue f s)) =
             sentItems (log ?s0) @ filter (\<lambda>i. \<not> shouldDiscard i) pre @ [x]"
    using 3 processItems_sent[OF earlier] by (simp add: sentItems_append)
  have 5: "queue (processQueue f s) = updateRetries x (queue ?sk)"
    using pq run fr by (simp add: updateRetriesS_def)
  have 6: "\<forall>y\<in>set post. id_q y \<notin> id_q ` set (pre @ [x]) \<longrightarrow>
               map_of (queue (processQueue f s)) (fileName (id_q y)) =
               map_of (queue ?s0) (fileName (id_q y))"
  proof (intro ballI impI)
    fix y assume "y \<in> set post" and d: "id_q y \<notin> id_q ` set (pre @ [x])"
    then have a: "fileName (id_q y) \<notin> (\<lambda>i. fileName (id_q i)) ` set pre"
      and c: "fileName (id_q y) \<noteq> fileName (id_q x)"
      by (auto simp: fileName_inj)
    show "map_of (queue (processQueue f s)) (fileName (id_q y)) =
               map_of (queue ?s0) (fileName (id_q y))"
      using 5 processItems_untouched[OF a, of f ?s0] c
      by (simp add: updateRetries_def map_of_writeFile)
  qed
  from 1 2 3 4 5 6 show ?thesis by blast
qed

theorem processQueue_halts_at_first_failure_witness:
  "processQueue failFetch exClient =
     \<lparr>available = False,
      queue = [(''b.json'', Some (exItemB\<lparr>retries := 1\<rparr>)), (''a.json'', Some exItemA)],
      net = (), log = [Sent exItemB False, Retried ''b'']\<rparr>"
  using processQueue_halts_at_first_failure [of exClient failFetch "[]" exItemB "[exItemA]"]
  by (simp add: exClient_def exDir_def exItemA_def exItemB_def failFetch_def readQueue_def
      parsed_def endsWith_def List.map_filter_def shouldDiscard_def MAX_RETRIES_def
      processItem_def obsidianDelete_def obsidianPut_def doFetch_def updateRetriesS_def
      updateRetries_def fileName_def)

section \<open>Properties of the deletion guard\<close>

lemma map_of_delete_same: "map_of (AList.delete k al) k = None"
  by (simp add: AList.delete_conv')

text \<open>
  What \<open>moveToTrash\<close> enqueues: the copy of the summary and then the delete of the
  original when the sink returns the summary, and nothing when the sink returns no
  note at all.
\<close>

lemma moveToTrash_summary:
  "sinkGet e (summaryPath t) = Some c \<Longrightarrow>
   \<exists>rest. moveToTrash e k t =
     (Create, replaceFirst ''/sessions/'' ''/trash/'' (summaryPath t), c)
     # (Delete, summaryPath t, []) # rest"
  by (simp add: moveToTrash_def Let_def)

lemma moveToTrash_nothing_readable:
  "\<forall>p. sinkGet e p = None \<Longrightarrow> moveToTrash e k t = []"
  by (simp add: moveToTrash_def Let_def trashParts.simps[of _ _ "Suc 0"])

text \<open>
  The invariant holds at the start, the poll keeps it, and the event handlers never
  touch the counter map.
\<close>

lemma countersBelowThreshold_empty:
  "countersBelowThreshold \<lparr>sessions = [], deletionFailures = Map.empty, enqueued = []\<rparr>"
  by (simp add: countersBelowThreshold_def)




text \<open>
  Three polls in a row that fail, for a session found before and with no recorded
  failure: it stays tracked with nothing enqueued after the first and the second, and
  the third drops it and enqueues the operations of \<open>moveToTrash\<close>.
\<close>

lemma three_strikes:
  assumes tracked: "map_of (sessions st) k = Some tracker"
    and seen: "foundInStorage tracker"
    and fresh: "deletionFailures st k = None"
    and gone: "readSession e k (projectId tracker) = None"
  shows "map_of (sessions (pollSession e k st)) k = Some tracker
    \<and> map_of (sessions (pollSession e k (pollSession e k st))) k = Some tracker
    \<and> map_of (sessions (pollSession e k (pollSession e k (pollSession e k st)))) k = None
    \<and> enqueued (pollSession e k (pollSession e k st)) = enqueued st
    \<and> enqueued (pollSession e k (pollSession e k (pollSession e k st)))
        = enqueued st @ moveToTrash e k tracker"
proof -
  let ?s1 = "st\<lparr>deletionFailures := (deletionFailures st)(k \<mapsto> 1)\<rparr>"
  let ?s2 = "st\<lparr>deletionFailures := (deletionFailures st)(k \<mapsto> 2)\<rparr>"
  have 1: "pollSession e k st = ?s1"
    using assms by (simp add: pollSession_def failureCount_def DELETION_THRESHOLD_def Let_def)
  have 2: "pollSession e k ?s1 = ?s2"
    using assms
    by (simp add: pollSession_def failureCount_def DELETION_THRESHOLD_def Let_def numeral_2_eq_2)
  have 3: "pollSession e k ?s2 =
      st\<lparr>sessions := AList.delete k (sessions st),
         deletionFailures := (deletionFailures st)(k := None),
         enqueued := enqueued st @ moveToTrash e k tracker\<rparr>"
    using assms
    by (simp add: pollSession_def failureCount_def DELETION_THRESHOLD_def Let_def enqueueAll_def)
  show ?thesis unfolding 1 2 3 using tracked by (simp add: map_of_delete_same)
qed

lemma pollSession_other:
  "j \<noteq> k \<Longrightarrow>
   map_of (sessions (pollSession e j st)) k = map_of (sessions st) k
   \<and> deletionFailures (pollSession e j st) k = deletionFailures st k"
  by (auto simp: pollSession_def setTracker_def enqueueAll_def Let_def AList.update_conv'
      AList.delete_conv' split: option.splits)

lemma pollSession_unseen_failed:
  "map_of (sessions st) k = Some tracker \<Longrightarrow> \<not> foundInStorage tracker \<Longrightarrow>
   readSession e k (projectId tracker) = None \<Longrightarrow> pollSession e k st = st"
  by (simp add: pollSession_def)

lemma fold_pollSession_unseen_failed:
  "map_of (sessions st) k = Some tracker \<Longrightarrow> \<not> foundInStorage tracker \<Longrightarrow>
   readSession e k (projectId tracker) = None \<Longrightarrow>
   map_of (sessions (fold (pollSession e) ks st)) k = Some tracker
   \<and> deletionFailures (fold (pollSession e) ks st) k = deletionFailures st k"
proof (induction ks arbitrary: st)
  case Nil
  then show ?case by simp
next
  case (Cons j ks)
  show ?case
  proof (cases "j = k")
    case True
    with Cons.prems have "pollSession e j st = st" by (simp add: pollSession_unseen_failed)
    with Cons show ?thesis by simp
  next
    case False
    from pollSession_other[OF False, of e st] Cons.prems
    have "map_of (sessions (pollSession e j st)) k = Some tracker"
      and d: "deletionFailures (pollSession e j st) k = deletionFailures st k" by simp_all
    from Cons.IH[OF this(1) Cons.prems(2,3)] d show ?thesis by simp
  qed
qed

lemma pollSession_unseen_kept:
  "map_of (sessions st) k = Some tracker \<Longrightarrow> \<not> foundInStorage tracker \<Longrightarrow>
   \<exists>t. map_of (sessions (pollSession e k st)) k = Some t
       \<and> (foundInStorage t \<longrightarrow> readSession e k (projectId t) \<noteq> None)
       \<and> projectId t = projectId tracker"
  by (auto simp: pollSession_def setTracker_def AList.update_conv' split: option.splits)

lemma pollSession_read_ok_kept:
  "map_of (sessions st) k = Some tracker \<Longrightarrow> readSession e k (projectId tracker) \<noteq> None \<Longrightarrow>
   \<exists>t. map_of (sessions (pollSession e k st)) k = Some t \<and> projectId t = projectId tracker"
  by (auto simp: pollSession_def setTracker_def AList.update_conv' split: option.splits)

lemma fold_pollSession_kept:
  "map_of (sessions st) k = Some tracker \<Longrightarrow>
   \<not> foundInStorage tracker \<or> readSession e k (projectId tracker) \<noteq> None \<Longrightarrow>
   map_of (sessions (fold (pollSession e) ks st)) k \<noteq> None"
proof (induction ks arbitrary: st tracker)
  case Nil
  then show ?case by simp
next
  case (Cons j ks)
  show ?case
  proof (cases "j = k")
    case False
    from pollSession_other[OF False, of e st] Cons.prems(1)
    have "map_of (sessions (pollSession e j st)) k = Some tracker" by simp
    from Cons.IH[OF this Cons.prems(2)] show ?thesis by simp
  next
    case True
    show ?thesis
    proof (cases "readSession e k (projectId tracker) \<noteq> None")
      case True
      from pollSession_read_ok_kept[OF Cons.prems(1) True]
      obtain t where t: "map_of (sessions (pollSession e k st)) k = Some t"
        "projectId t = projectId tracker" by blast
      with True have "\<not> foundInStorage t \<or> readSession e k (projectId t) \<noteq> None" by simp
      from Cons.IH[OF t(1) this] \<open>j = k\<close> show ?thesis by simp
    next
      case False
      with Cons.prems(2) have u: "\<not> foundInStorage tracker" by simp
      from pollSession_unseen_kept[OF Cons.prems(1) u, of e]
      obtain t where t: "map_of (sessions (pollSession e k st)) k = Some t"
        "foundInStorage t \<longrightarrow> readSession e k (projectId t) \<noteq> None" by blast
      then have "\<not> foundInStorage t \<or> readSession e k (projectId t) \<noteq> None" by blast
      from Cons.IH[OF t(1) this] \<open>j = k\<close> show ?thesis by simp
    qed
  qed
qed

text \<open>
  C4: for a tracked session never found upstream, a failed read in the deletion poll
  changes nothing: the step for that session returns the state as it was, and after the
  whole poll its tracker entry and its failure count are what they were. Whatever the
  read gives, such a session is still tracked after the step and after the poll.
\<close>

theorem unseen_session_failed_read_no_change:
  assumes tracked: "map_of (sessions st) k = Some tracker"
    and unseen: "\<not> foundInStorage tracker"
  shows "(readSession e k (projectId tracker) = None \<longrightarrow>
            pollSession e k st = st
            \<and> map_of (sessions (pollForDeletions e st)) k = Some tracker
            \<and> deletionFailures (pollForDeletions e st) k = deletionFailures st k)
         \<and> map_of (sessions (pollSession e k st)) k \<noteq> None
         \<and> map_of (sessions (pollForDeletions e st)) k \<noteq> None"
proof -
  have a: "readSession e k (projectId tracker) = None \<longrightarrow>
            pollSession e k st = st
            \<and> map_of (sessions (pollForDeletions e st)) k = Some tracker
            \<and> deletionFailures (pollForDeletions e st) k = deletionFailures st k"
    using fold_pollSession_unseen_failed[OF tracked unseen, of e]
      pollSession_unseen_failed[OF tracked unseen, of e]
    by (simp add: pollForDeletions_def)
  have b: "map_of (sessions (pollSession e k st)) k \<noteq> None"
    using pollSession_unseen_kept[OF tracked unseen, of e] by auto
  have c: "map_of (sessions (pollForDeletions e st)) k \<noteq> None"
    using fold_pollSession_kept[OF tracked, of e] unseen
    by (simp add: pollForDeletions_def)
  from a b c show ?thesis by blast
qed

theorem unseen_session_failed_read_no_change_witness:
  "pollSession exEnv ''S1'' exHooksUnseen = exHooksUnseen
   \<and> map_of (sessions (pollForDeletions exEnv exHooksUnseen)) ''S1''
       = Some (exTracker\<lparr>foundInStorage := False\<rparr>)
   \<and> deletionFailures (pollForDeletions exEnv exHooksUnseen) ''S1'' = None"
proof -
  have tracked: "map_of (sessions exHooksUnseen) ''S1'' = Some (exTracker\<lparr>foundInStorage := False\<rparr>)"
    by (simp add: exHooksUnseen_def)
  have unseen: "\<not> foundInStorage (exTracker\<lparr>foundInStorage := False\<rparr>)"
    by simp
  have failed: "readSession exEnv ''S1'' (projectId (exTracker\<lparr>foundInStorage := False\<rparr>)) = None"
    by (simp add: exEnv_def)
  from unseen_session_failed_read_no_change [OF tracked unseen, of exEnv] failed
  show ?thesis by (simp add: exHooksUnseen_def)
qed



lemma fold_pollSession_other:
  "k \<notin> set ks \<Longrightarrow>
   map_of (sessions (fold (pollSession e) ks st)) k = map_of (sessions st) k
   \<and> deletionFailures (fold (pollSession e) ks st) k = deletionFailures st k"
proof (induction ks arbitrary: st)
  case Nil
  then show ?case by simp
next
  case (Cons j ks)
  then have ne: "j \<noteq> k" and rest: "k \<notin> set ks" by auto
  from Cons.IH[OF rest, of "pollSession e j st"] pollSession_other[OF ne, of e st]
  show ?case by simp
qed



lemma pollForDeletions_untracked:
  assumes "map_of (sessions st) k = None"
  shows "map_of (sessions (pollForDeletions e st)) k = None
    \<and> deletionFailures (pollForDeletions e st) k = deletionFailures st k"
proof -
  from assms have "k \<notin> set (map fst (sessions st))"
    by (simp add: map_of_eq_None_iff)
  from fold_pollSession_other[OF this, of e st] assms show ?thesis
    by (simp add: pollForDeletions_def)
qed














section \<open>Properties of the rename cascade and of the event router\<close>

text \<open>
  C6: the cascade computes the slug of the new title. When it equals the tracker's slug
  nothing is enqueued and the tracker is unchanged. Otherwise the operations enqueued are
  deletes (with empty content) of the old summary path, of the old raw-log path and of
  the raw-log parts 1 to 20 at the old slug, 22 operations and none a create or an
  update; the tracker gets the new slug and the summary path at the new slug.
\<close>

theorem rename_cascade:
  fixes tracker :: SessionTracker and newTitle created :: string
  defines "newSlug \<equiv> sessionSlug \<lparr>title = Some newTitle, slug_s = None, id_s = []\<rparr>"
  defines "result \<equiv> handleRenameIfNeeded tracker newTitle created"
  defines "ops \<equiv> snd (snd result)"
  shows "(newSlug = slug tracker \<longrightarrow> result = (False, tracker, []))
       \<and> (newSlug \<noteq> slug tracker \<longrightarrow>
            fst result
            \<and> fst (snd result) =
                tracker\<lparr>slug := newSlug,
                        summaryPath := notePath (projectName tracker) created newSlug ''summary''\<rparr>
            \<and> ops = (Delete, summaryPath tracker, [])
                  # (Delete, notePath (projectName tracker) created (slug tracker) ''raw-log'', [])
                  # map (\<lambda>i. (Delete, notePath (projectName tracker) created (slug tracker)
                                         (''raw-log-part-'' @ showNat i), [])) [1..<21]
            \<and> length ops = 22
            \<and> (\<forall>i. 1 \<le> i \<and> i \<le> 20 \<longrightarrow>
                  (Delete, notePath (projectName tracker) created (slug tracker)
                             (''raw-log-part-'' @ showNat i), []) \<in> set ops)
            \<and> (\<forall>p\<in>set ops. fst p = Delete \<and> snd (snd p) = []))"
  unfolding ops_def result_def newSlug_def
  by (auto simp: handleRenameIfNeeded_def Let_def)

theorem rename_cascade_witness:
  "handleRenameIfNeeded exTracker ''Fix the login bug'' ''2026-02-14'' = (False, exTracker, [])
   \<and> fst (handleRenameIfNeeded exTracker ''Completely different title'' ''2026-02-14'')
   \<and> slug (fst (snd (handleRenameIfNeeded exTracker ''Completely different title'' ''2026-02-14'')))
       = ''completely-different-title''
   \<and> summaryPath (fst (snd (handleRenameIfNeeded exTracker ''Completely different title'' ''2026-02-14'')))
       = ''10-Projects/demo/sessions/2026-02/14-completely-different-title/summary.md''
   \<and> length (snd (snd (handleRenameIfNeeded exTracker ''Completely different title'' ''2026-02-14''))) = 22
   \<and> hd (snd (snd (handleRenameIfNeeded exTracker ''Completely different title'' ''2026-02-14'')))
       = (Delete, ''10-Projects/demo/sessions/2026-02/14-fix-login-bug/summary.md'', [])"
proof -
  have same: "sessionSlug \<lparr>title = Some ''Fix the login bug'', slug_s = None, id_s = []\<rparr>
      = slug exTracker"
    by code_simp
  have new: "sessionSlug \<lparr>title = Some ''Completely different title'', slug_s = None, id_s = []\<rparr>
      = ''completely-different-title''"
    by code_simp
  have differs: "sessionSlug \<lparr>title = Some ''Completely different title'', slug_s = None, id_s = []\<rparr>
      \<noteq> slug exTracker"
    by code_simp
  have np: "notePath (projectName exTracker) ''2026-02-14'' ''completely-different-title'' ''summary''
     = ''10-Projects/demo/sessions/2026-02/14-completely-different-title/summary.md''"
    by code_simp
  have sp: "summaryPath exTracker = ''10-Projects/demo/sessions/2026-02/14-fix-login-bug/summary.md''"
    by (simp add: exTracker_def)
  from rename_cascade [of "''Fix the login bug''" exTracker "''2026-02-14''"] same
  have 1: "handleRenameIfNeeded exTracker ''Fix the login bug'' ''2026-02-14'' = (False, exTracker, [])"
    by simp
  from rename_cascade [of "''Completely different title''" exTracker "''2026-02-14''"] differs
  have 2: "fst (handleRenameIfNeeded exTracker ''Completely different title'' ''2026-02-14'')"
    and 3: "fst (snd (handleRenameIfNeeded exTracker ''Completely different title'' ''2026-02-14'')) =
                exTracker\<lparr>slug := sessionSlug \<lparr>title = Some ''Completely different title'', slug_s = None, id_s = []\<rparr>,
                        summaryPath := notePath (projectName exTracker) ''2026-02-14'' (sessionSlug \<lparr>title = Some ''Completely different title'', slug_s = None, id_s = []\<rparr>) ''summary''\<rparr>"
    and 4: "length (snd (snd (handleRenameIfNeeded exTracker ''Completely different title'' ''2026-02-14''))) = 22"
    and 5: "snd (snd (handleRenameIfNeeded exTracker ''Completely different title'' ''2026-02-14'')) = (Delete, summaryPath exTracker, [])
                  # (Delete, notePath (projectName exTracker) ''2026-02-14'' (slug exTracker) ''raw-log'', [])
                  # map (\<lambda>i. (Delete, notePath (projectName exTracker) ''2026-02-14'' (slug exTracker)
                                         (''raw-log-part-'' @ showNat i), [])) [1..<21]"
    by blast+
  from 1 2 3 4 5 new np sp show ?thesis by simp
qed

text \<open>
  C8 (as the code has it): \<open>handleEvent\<close> hands the four types \<open>session.created\<close>,
  \<open>session.updated\<close>, \<open>session.idle\<close> and \<open>message.updated\<close> to their handlers; for every
  other type, \<open>session.compacting\<close> among them, it returns the state unchanged.
\<close>

theorem handleEvent_dispatch:
  "(type_e ev = ''session.created'' \<longrightarrow>
      handleEvent e ev st =
        (case properties ev of SessionInfo info \<Rightarrow> onSessionCreated e info st | _ \<Rightarrow> st))
   \<and> (type_e ev = ''session.updated'' \<longrightarrow>
      handleEvent e ev st =
        (case properties ev of SessionInfo info \<Rightarrow> onSessionUpdated e info st | _ \<Rightarrow> st))
   \<and> (type_e ev = ''session.idle'' \<longrightarrow>
      handleEvent e ev st =
        (case properties ev of SessionID i \<Rightarrow> onSessionIdle e i st | _ \<Rightarrow> st))
   \<and> (type_e ev = ''message.updated'' \<longrightarrow>
      handleEvent e ev st =
        (case properties ev of MessageInfo i \<Rightarrow> onMessageUpdated e i st | _ \<Rightarrow> st))
   \<and> (type_e ev \<notin> set [''session.created'', ''session.updated'', ''session.idle'',
                        ''message.updated''] \<longrightarrow>
      handleEvent e ev st = st)
   \<and> (type_e ev = ''session.compacting'' \<longrightarrow> handleEvent e ev st = st)"
  by (simp add: handleEvent_def)

text \<open>
  C8 (as stated, refuted): on a \<open>session.compacting\<close> event for a tracked session
  \<open>handleEvent\<close> changes nothing, while \<open>onCompacting\<close> would enqueue the summary.
\<close>

theorem handleEvent_compacting_counterexample:
  "handleEvent exEnvLive \<lparr>type_e = ''session.compacting'', properties = SessionID ''S2''\<rparr> exHooks
     = exHooks
   \<and> enqueued (onCompacting exEnvLive ''S2'' exHooks)
     = [(Update, ''10-Projects/demo/sessions/2026-02/14-fix-login-bug/summary.md'', ''summary'')]
   \<and> onCompacting exEnvLive ''S2'' exHooks \<noteq> exHooks"
proof -
  have 1: "handleEvent exEnvLive \<lparr>type_e = ''session.compacting'', properties = SessionID ''S2''\<rparr>
      exHooks = exHooks"
    by (simp add: handleEvent_def)
  have 2: "enqueued (onCompacting exEnvLive ''S2'' exHooks)
     = [(Update, ''10-Projects/demo/sessions/2026-02/14-fix-login-bug/summary.md'', ''summary'')]"
    by code_simp
  have 3: "enqueued exHooks = []" by (simp add: exHooks_def)
  from 2 3 have "onCompacting exEnvLive ''S2'' exHooks \<noteq> exHooks" by auto
  with 1 2 show ?thesis by blast
qed

theorem handleEvent_dispatch_witness:
  "sessions (handleEvent exEnv \<lparr>type_e = ''session.created'', properties = SessionInfo exSession\<rparr>
      exHooksEmpty)
     = [(''S1'', \<lparr>projectId = ''proj'', projectName = ''proj'', slug = ''fix-login-bug'',
          summaryPath = ''10-Projects/proj/sessions/2026-02/14-fix-login-bug/summary.md'',
          messageCount = 0, lastMessageSync = 0, foundInStorage = False\<rparr>)]
   \<and> map (\<lambda>p. (fst p, fst (snd p)))
        (enqueued (handleEvent exEnv \<lparr>type_e = ''session.created'', properties = SessionInfo exSession\<rparr>
           exHooksEmpty))
     = [(Create, ''10-Projects/proj/sessions/2026-02/14-fix-login-bug/summary.md'')]
   \<and> handleEvent exEnv \<lparr>type_e = ''session.deleted'', properties = SessionInfo exSession\<rparr> exHooks
     = exHooks"
proof -
  have a: "sessions (onSessionCreated exEnv exSession exHooksEmpty)
     = [(''S1'', \<lparr>projectId = ''proj'', projectName = ''proj'', slug = ''fix-login-bug'',
          summaryPath = ''10-Projects/proj/sessions/2026-02/14-fix-login-bug/summary.md'',
          messageCount = 0, lastMessageSync = 0, foundInStorage = False\<rparr>)]"
    by code_simp
  have b: "map (\<lambda>p. (fst p, fst (snd p))) (enqueued (onSessionCreated exEnv exSession exHooksEmpty))
     = [(Create, ''10-Projects/proj/sessions/2026-02/14-fix-login-bug/summary.md'')]"
    by code_simp
  have c: "''session.deleted'' \<notin> set [''session.created'', ''session.updated'', ''session.idle'',
                        ''message.updated'']"
    by simp
  from handleEvent_dispatch [of "\<lparr>type_e = ''session.created'', properties = SessionInfo exSession\<rparr>"
      exEnv exHooksEmpty]
  have d: "handleEvent exEnv \<lparr>type_e = ''session.created'', properties = SessionInfo exSession\<rparr>
      exHooksEmpty = onSessionCreated exEnv exSession exHooksEmpty"
    by simp
  from handleEvent_dispatch [of "\<lparr>type_e = ''session.deleted'', properties = SessionInfo exSession\<rparr>"
      exEnv exHooks] c
  have f: "handleEvent exEnv \<lparr>type_e = ''session.deleted'', properties = SessionInfo exSession\<rparr>
      exHooks = exHooks"
    by simp
  from a b d f show ?thesis by simp
qed

section \<open>Properties of the splitter\<close>

lemma findSub_Some:
  "findSub p s = Some i \<Longrightarrow> s = take i s @ p @ drop (i + length p) s"
proof (induction s arbitrary: i)
  case Nil
  then show ?case by (simp split: if_splits)
next
  case (Cons c cs)
  show ?case
  proof (cases "startsWith p (c # cs)")
    case True
    with Cons.prems have "i = 0" by simp
    moreover from True have "c # cs = p @ drop (length p) (c # cs)"
      unfolding startsWith_def by (metis append_take_drop_id)
    ultimately show ?thesis by simp
  next
    case False
    with Cons.prems obtain j where j: "findSub p cs = Some j" "i = Suc j" by auto
    from Cons.IH[OF j(1)] j(2) show ?thesis by simp
  qed
qed

lemma frontmatterMatch_Some:
  assumes "frontmatterMatch md = Some (fm, b)"
  shows "md = fence @ fm @ [LF] @ fence @ b"
proof -
  from assms have st: "startsWith fence md"
    by (simp add: frontmatterMatch_def split: if_splits)
  with assms obtain p where p: "findSub (LF # fence) (drop 4 md) = Some p"
    and fm: "fm = take p (drop 4 md)" and b: "b = drop (p + 5) (drop 4 md)"
    by (auto simp: frontmatterMatch_def split: option.splits)
  have len: "length fence = 4" by (simp add: fence_def)
  from st have "md = fence @ drop 4 md"
    unfolding startsWith_def len by (metis append_take_drop_id)
  moreover from findSub_Some[OF p] have "drop 4 md = fm @ (LF # fence) @ b"
    using fm b len by simp
  ultimately show ?thesis by simp
qed

lemma splitSections_nonempty: "splitSections s \<noteq> []"
  by (induction s) (auto split: list.splits)

lemma concat_splitSections: "concat (splitSections s) = s"
  by (induction s) (auto split: list.splits)

lemma chunk_eq: "chunk xs m i = take m (drop (i * m) xs)"
  by (auto simp: chunk_def Let_def min_def)

lemma concat_chunks: "concat (map (chunk xs m) [0..<k]) = take (k * m) xs"
proof (induction k)
  case 0
  then show ?case by simp
next
  case (Suc k)
  have e: "Suc k * m = k * m + m" by simp
  have "concat (map (chunk xs m) [0..<Suc k]) = concat (map (chunk xs m) [0..<k]) @ chunk xs m k"
    by simp
  also have "\<dots> = take (k * m) xs @ take m (drop (k * m) xs)"
    unfolding Suc chunk_eq ..
  also have "\<dots> = take (k * m + m) xs" by (rule take_add[symmetric])
  finally show ?case unfolding e .
qed

lemma concat_map_concat': "concat (map concat xss) = concat (concat xss)"
  by (induction xss) auto

lemma concat_partBody:
  assumes "0 < k"
  shows "concat (map (partBody h xs m) [0..<k]) = h @ concat (take (k * m) xs)"
proof -
  from assms have split: "[0..<k] = 0 # [Suc 0..<k]" by (simp add: upt_conv_Cons)
  have rest: "map (partBody h xs m) [Suc 0..<k] = map (\<lambda>i. concat (chunk xs m i)) [Suc 0..<k]"
    by (auto simp: partBody_def)
  have "concat (map (partBody h xs m) [0..<k])
      = partBody h xs m 0 @ concat (map (partBody h xs m) [Suc 0..<k])"
    unfolding split by simp
  also have "\<dots> = h @ concat (map (\<lambda>i. concat (chunk xs m i)) (0 # [Suc 0..<k]))"
    unfolding rest by (simp add: partBody_def)
  also have "\<dots> = h @ concat (map concat (map (chunk xs m) [0..<k]))"
    unfolding split[symmetric] by (simp add: comp_def)
  also have "\<dots> = h @ concat (take (k * m) xs)"
    unfolding concat_map_concat' concat_chunks ..
  finally show ?thesis .
qed

lemma ceil_div_bounds:
  fixes n m :: nat
  assumes "0 < m" "0 < n"
  shows "((n + m - 1) div m - 1) * m < n \<and> n \<le> ((n + m - 1) div m) * m \<and> 0 < (n + m - 1) div m"
proof -
  let ?t = "(n + m - 1) div m"
  have pos: "0 < ?t" using assms by (simp add: div_greater_zero_iff)
  have up: "n + m - 1 < m + ?t * m"
    using assms dividend_less_div_times[of m "n + m - 1"] by (simp add: mult.commute)
  have lo: "?t * m \<le> n + m - 1" by simp
  from up assms have a: "n \<le> ?t * m" by linarith
  obtain t' where t': "?t = Suc t'" using pos by (cases ?t) auto
  have "Suc t' * m \<le> n + m - 1" using lo unfolding t' .
  then have "t' * m + m \<le> n + m - 1" by (simp add: add.commute)
  with assms have "t' * m < n" by linarith
  then have b: "(?t - 1) * m < n" using t' by simp
  from a b pos show ?thesis by simp
qed

text \<open>
  C10: for a positive \<open>maxMessages\<close>. Without a frontmatter block, or with at most
  \<open>maxMessages\<close> message sections (the sections that follow the header section), the
  result is the one part 1 of 1 holding the document unchanged. Otherwise the document
  is its frontmatter between the two fences followed by the body, and the result has
  \<open>ceil(n / maxMessages)\<close> parts, numbered 1, 2, ... in order, each with \<open>totalParts\<close>
  the number of parts, each made of its own frontmatter and its share of the body, and
  the shares (the header section with the first) concatenate to the body.
\<close>

theorem splitIfNeeded_parts:
  assumes positive: "0 < maxMessages"
  shows "(frontmatterMatch md = None \<longrightarrow>
            splitIfNeeded md maxMessages = Some [\<lparr>markdown = md, partNumber = 1, totalParts = 1\<rparr>])
       \<and> (frontmatterMatch md = Some (fm, b) \<longrightarrow>
            md = fence @ fm @ [LF] @ fence @ b)
       \<and> (frontmatterMatch md = Some (fm, b) \<and> length (tl (splitSections b)) \<le> maxMessages \<longrightarrow>
            splitIfNeeded md maxMessages = Some [\<lparr>markdown = md, partNumber = 1, totalParts = 1\<rparr>])
       \<and> (frontmatterMatch md = Some (fm, b) \<and> maxMessages < length (tl (splitSections b)) \<longrightarrow>
            (\<exists>ps. splitIfNeeded md maxMessages = Some ps
               \<and> (length ps - 1) * maxMessages < length (tl (splitSections b))
               \<and> length (tl (splitSections b)) \<le> length ps * maxMessages
               \<and> map partNumber ps = [1..<length ps + 1]
               \<and> (\<forall>p\<in>set ps. totalParts p = length ps)
               \<and> (\<forall>i<length ps. markdown (ps ! i) =
                     fence @ partFrontmatter fm i (length ps) @ [LF] @ fence
                       @ partBody (hd (splitSections b)) (tl (splitSections b)) maxMessages i)
               \<and> concat (map (partBody (hd (splitSections b)) (tl (splitSections b)) maxMessages)
                     [0..<length ps]) = b))"
proof -
  have A: "frontmatterMatch md = None \<longrightarrow>
            splitIfNeeded md maxMessages = Some [\<lparr>markdown = md, partNumber = 1, totalParts = 1\<rparr>]"
    by (simp add: splitIfNeeded_def)
  have B: "frontmatterMatch md = Some (fm, b) \<longrightarrow> md = fence @ fm @ [LF] @ fence @ b"
    using frontmatterMatch_Some by blast
  have C: "frontmatterMatch md = Some (fm, b) \<and> length (tl (splitSections b)) \<le> maxMessages \<longrightarrow>
            splitIfNeeded md maxMessages = Some [\<lparr>markdown = md, partNumber = 1, totalParts = 1\<rparr>]"
    by (simp add: splitIfNeeded_def Let_def)
  have D: "frontmatterMatch md = Some (fm, b) \<and> maxMessages < length (tl (splitSections b)) \<longrightarrow>
            (\<exists>ps. splitIfNeeded md maxMessages = Some ps
               \<and> (length ps - 1) * maxMessages < length (tl (splitSections b))
               \<and> length (tl (splitSections b)) \<le> length ps * maxMessages
               \<and> map partNumber ps = [1..<length ps + 1]
               \<and> (\<forall>p\<in>set ps. totalParts p = length ps)
               \<and> (\<forall>i<length ps. markdown (ps ! i) =
                     fence @ partFrontmatter fm i (length ps) @ [LF] @ fence
                       @ partBody (hd (splitSections b)) (tl (splitSections b)) maxMessages i)
               \<and> concat (map (partBody (hd (splitSections b)) (tl (splitSections b)) maxMessages)
                     [0..<length ps]) = b)"
  proof
    assume h: "frontmatterMatch md = Some (fm, b) \<and> maxMessages < length (tl (splitSections b))"
    let ?secs = "splitSections b"
    let ?hd = "hd ?secs"
    let ?ms = "tl ?secs"
    let ?n = "length ?ms"
    let ?t = "(?n + maxMessages - 1) div maxMessages"
    let ?ps = "map (\<lambda>i. \<lparr>markdown = fence @ partFrontmatter fm i ?t @ [LF] @ fence
                        @ partBody ?hd ?ms maxMessages i,
                     partNumber = i + 1, totalParts = ?t\<rparr>) [0..<?t]"
    from h have h2: "maxMessages < ?n" by (rule conjunct2)
    from h2 positive have npos: "0 < ?n" by linarith
    note cb = ceil_div_bounds[OF positive npos]
    have res: "splitIfNeeded md maxMessages = Some ?ps"
      using h positive by (simp add: splitIfNeeded_def Let_def)
    have len: "length ?ps = ?t" by simp
    have nums: "map partNumber ?ps = [1..<?t + 1]"
      by (simp add: comp_def map_Suc_upt[symmetric] del: upt_Suc)
    have tot: "\<forall>p\<in>set ?ps. totalParts p = length ?ps" by auto
    have md: "\<forall>i<length ?ps. markdown (?ps ! i) =
                     fence @ partFrontmatter fm i (length ?ps) @ [LF] @ fence
                       @ partBody ?hd ?ms maxMessages i"
      by simp
    have "concat (map (partBody ?hd ?ms maxMessages) [0..<?t]) = ?hd @ concat (take (?t * maxMessages) ?ms)"
      using cb by (simp add: concat_partBody)
    also have "\<dots> = ?hd @ concat ?ms" using cb by simp
    also have "\<dots> = concat ?secs"
      using splitSections_nonempty[of b] by (cases ?secs) simp_all
    also have "\<dots> = b" by (rule concat_splitSections)
    finally have body: "concat (map (partBody ?hd ?ms maxMessages) [0..<length ?ps]) = b"
      by simp
    show "\<exists>ps. splitIfNeeded md maxMessages = Some ps
               \<and> (length ps - 1) * maxMessages < length (tl (splitSections b))
               \<and> length (tl (splitSections b)) \<le> length ps * maxMessages
               \<and> map partNumber ps = [1..<length ps + 1]
               \<and> (\<forall>p\<in>set ps. totalParts p = length ps)
               \<and> (\<forall>i<length ps. markdown (ps ! i) =
                     fence @ partFrontmatter fm i (length ps) @ [LF] @ fence
                       @ partBody (hd (splitSections b)) (tl (splitSections b)) maxMessages i)
               \<and> concat (map (partBody (hd (splitSections b)) (tl (splitSections b)) maxMessages)
                     [0..<length ps]) = b"
      apply (rule exI[of _ ?ps])
      using res cb nums tot md body unfolding len by blast
  qed
  from A B C D show ?thesis by blast
qed

theorem splitIfNeeded_parts_witness:
  "splitIfNeeded exDoc 2 =
     Some [\<lparr>markdown = fence @ ''t: 1'' @ [LF] @ ''part: 1'' @ [LF] @ ''total_parts: 2'' @ [LF] @ fence
              @ ''# Log'' @ [LF] @ ''### User (1)'' @ [LF] @ ''a'' @ [LF]
              @ ''### Assistant (2)'' @ [LF] @ ''b'' @ [LF],
            partNumber = 1, totalParts = 2\<rparr>,
           \<lparr>markdown = fence @ ''t: 1'' @ [LF] @ ''part: 2'' @ [LF] @ ''total_parts: 2'' @ [LF] @ fence
              @ ''### User (3)'' @ [LF] @ ''c'' @ [LF],
            partNumber = 2, totalParts = 2\<rparr>]
   \<and> concat (map (partBody (hd (splitSections exBody)) (tl (splitSections exBody)) 2) [0..<2])
       = exBody"
proof -
  have pos: "0 < (2::nat)" by simp
  have fm: "frontmatterMatch exDoc = Some (''t: 1'', exBody)" by code_simp
  have many: "2 < length (tl (splitSections exBody))" by code_simp
  have val: "splitIfNeeded exDoc 2 =
     Some [\<lparr>markdown = fence @ ''t: 1'' @ [LF] @ ''part: 1'' @ [LF] @ ''total_parts: 2'' @ [LF] @ fence
              @ ''# Log'' @ [LF] @ ''### User (1)'' @ [LF] @ ''a'' @ [LF]
              @ ''### Assistant (2)'' @ [LF] @ ''b'' @ [LF],
            partNumber = 1, totalParts = 2\<rparr>,
           \<lparr>markdown = fence @ ''t: 1'' @ [LF] @ ''part: 2'' @ [LF] @ ''total_parts: 2'' @ [LF] @ fence
              @ ''### User (3)'' @ [LF] @ ''c'' @ [LF],
            partNumber = 2, totalParts = 2\<rparr>]"
    by code_simp
  from splitIfNeeded_parts [OF pos, of exDoc "''t: 1''" exBody] fm many
  obtain ps where ps: "splitIfNeeded exDoc 2 = Some ps"
    and cat: "concat (map (partBody (hd (splitSections exBody)) (tl (splitSections exBody)) 2)
                     [0..<length ps]) = exBody"
    by blast
  have "length (the (splitIfNeeded exDoc 2)) = 2" unfolding val by simp
  with ps have "length ps = 2" by simp
  with cat have cat2: "concat (map (partBody (hd (splitSections exBody)) (tl (splitSections exBody)) 2)
                     [0..<2]) = exBody" by simp
  show ?thesis by (rule conjI[OF val cat2])
qed

section \<open>The availability flag\<close>

lemma since_append: "log s' = log s @ T \<Longrightarrow> since s s' = T"
  by (simp add: since_def)

lemma log_processItems: "\<exists>T. log (processItems f items s) = log s @ T"
proof (induction items arbitrary: s)
  case Nil
  then show ?case by simp
next
  case (Cons x xs)
  obtain b s1 where p: "processItem f x s = (b, s1)" by (cases "processItem f x s")
  note fr = processItem_frame[OF p]
  from Cons[of "dequeueS (id_q x) s"] obtain T1
    where T1: "log (processItems f xs (dequeueS (id_q x) s)) = log s @ Dequeued (id_q x) # T1"
    by (auto simp: dequeueS_def)
  from Cons[of "dequeueS (id_q x) s1"] fr obtain T2
    where T2: "log (processItems f xs (dequeueS (id_q x) s1))
                 = log s @ Sent x b # Dequeued (id_q x) # T2"
    by (auto simp: dequeueS_def)
  show ?case using p fr T1 T2 by (auto simp: updateRetriesS_def)
qed

lemma since_processItems_Cons:
  "since s (processItems f (x # xs) s) =
     (if shouldDiscard x
      then Dequeued (id_q x) # since (dequeueS (id_q x) s) (processItems f xs (dequeueS (id_q x) s))
      else if fst (processItem f x s)
      then Sent x True # Dequeued (id_q x)
             # since (dequeueS (id_q x) (snd (processItem f x s)))
                 (processItems f xs (dequeueS (id_q x) (snd (processItem f x s))))
      else [Sent x False, Retried (id_q x)])"
proof -
  obtain b s1 where p: "processItem f x s = (b, s1)" by (cases "processItem f x s")
  note fr = processItem_frame[OF p]
  let ?d = "dequeueS (id_q x) s"
  let ?d1 = "dequeueS (id_q x) s1"
  from log_processItems[of f xs ?d] obtain T1
    where T1: "log (processItems f xs ?d) = log ?d @ T1" by blast
  from log_processItems[of f xs ?d1] obtain T2
    where T2: "log (processItems f xs ?d1) = log ?d1 @ T2" by blast
  have a: "since ?d (processItems f xs ?d) = T1" using T1 by (rule since_append)
  have b: "since ?d1 (processItems f xs ?d1) = T2" using T2 by (rule since_append)
  have c: "since s (processItems f xs ?d) = Dequeued (id_q x) # T1"
    using T1 by (intro since_append) (simp add: dequeueS_def)
  have d: "since s (processItems f xs ?d1) = Sent x b # Dequeued (id_q x) # T2"
    using T2 fr by (intro since_append) (simp add: dequeueS_def)
  have e: "since s (updateRetriesS x (s1\<lparr>available := False\<rparr>)) = [Sent x b, Retried (id_q x)]"
    using fr by (intro since_append) (simp add: updateRetriesS_def)
  show ?thesis using p a b c d e by auto
qed

lemma since_refl: "since s s = []"
  by (simp add: since_def)

lemma sent_failed_unavailable:
  "Sent x False \<in> set (since s (processItems f items s)) \<Longrightarrow>
   \<not> available (processItems f items s)"
proof (induction items arbitrary: s)
  case Nil
  then show ?case by (simp add: since_refl)
next
  case (Cons y ys)
  obtain b s1 where p: "processItem f y s = (b, s1)" by (cases "processItem f y s")
  show ?case
  proof (cases "shouldDiscard y")
    case True
    with Cons.prems have "Sent x False \<in> set (since (dequeueS (id_q y) s)
        (processItems f ys (dequeueS (id_q y) s)))"
      by (simp add: since_processItems_Cons del: processItems.simps)
    from Cons.IH[OF this] True show ?thesis by simp
  next
    case False
    show ?thesis
    proof (cases b)
      case True
      with Cons.prems False p have "Sent x False \<in> set (since (dequeueS (id_q y) s1)
        (processItems f ys (dequeueS (id_q y) s1)))"
        by (simp add: since_processItems_Cons del: processItems.simps)
      from Cons.IH[OF this] True False p show ?thesis by simp
    next
      case b: False
      with False p show ?thesis by (simp add: updateRetriesS_def)
    qed
  qed
qed

lemma since_processQueue:
  "since s (processQueue f s) =
     (if available s then since s (processItems f (readQueue (queue s)) s)
      else if fst (healthCheck f s)
      then HealthChecked True
             # since (snd (healthCheck f s))
                 (processItems f (readQueue (queue s)) (snd (healthCheck f s)))
      else [HealthChecked False])"
proof -
  obtain b s1 where h: "healthCheck f s = (b, s1)" by (cases "healthCheck f s")
  note fr = healthCheck_frame[OF h]
  from log_processItems[of f "readQueue (queue s)" s1] obtain T
    where T: "log (processItems f (readQueue (queue s)) s1) = log s1 @ T" by blast
  have a: "since s1 (processItems f (readQueue (queue s)) s1) = T" using T by (rule since_append)
  have c: "since s (processItems f (readQueue (queue s)) s1) = HealthChecked b # T"
    using T fr by (intro since_append) simp
  have d: "since s s1 = [HealthChecked b]"
    using fr by (intro since_append) simp
  show ?thesis using h fr a c d by (auto simp: processQueue_def)
qed

text \<open>
  C7 (as the code has it): a step that finds the flag false and leaves it true is a
  health check or a tick, and a successful health check happened in it. A write, a
  read and a delete leave the flag as it is, whether they fail or not; a health check
  sets it to its result; a tick in which a write or delete of an item failed leaves
  it false.
\<close>

theorem available_flag_transitions:
  "(\<not> available s \<and> available (clientStep f a s) \<longrightarrow>
      (a = DoHealthCheck \<or> a = DoTick) \<and> HealthChecked True \<in> set (since s (clientStep f a s)))
   \<and> available (snd (obsidianPut f p c s)) = available s
   \<and> available (snd (obsidianGet f p s)) = available s
   \<and> available (snd (obsidianDelete f p s)) = available s
   \<and> available (snd (healthCheck f s)) = fst (healthCheck f s)
   \<and> (Sent x False \<in> set (since s (processQueue f s)) \<longrightarrow> \<not> available (processQueue f s))"
proof -
  have put: "available (snd (obsidianPut f p c s)) = available s" for p c
    by (simp add: obsidianPut_def doFetch_def split: prod.splits)
  have get: "available (snd (obsidianGet f p s)) = available s" for p
    by (simp add: obsidianGet_def doFetch_def split: prod.splits)
  have del: "available (snd (obsidianDelete f p s)) = available s" for p
    by (simp add: obsidianDelete_def doFetch_def split: prod.splits)
  have hc: "available (snd (healthCheck f s)) = fst (healthCheck f s)"
    using healthCheck_frame[of f s] by (cases "healthCheck f s") simp
  have hl: "since s (snd (healthCheck f s)) = [HealthChecked (fst (healthCheck f s))]"
    using healthCheck_frame[of f s] by (cases "healthCheck f s") (simp add: since_def)
  have tick: "\<not> available s \<Longrightarrow> available (processQueue f s) \<Longrightarrow>
      HealthChecked True \<in> set (since s (processQueue f s))"
  proof -
    assume u: "\<not> available s" and v: "available (processQueue f s)"
    have "fst (healthCheck f s)"
    proof (rule ccontr)
      assume n: "\<not> fst (healthCheck f s)"
      with u have "processQueue f s = snd (healthCheck f s)"
        by (cases "healthCheck f s") (simp add: processQueue_def)
      with hc n v show False by simp
    qed
    with u show ?thesis by (simp add: since_processQueue)
  qed
  have rearm: "\<not> available s \<and> available (clientStep f a s) \<longrightarrow>
      (a = DoHealthCheck \<or> a = DoTick) \<and> HealthChecked True \<in> set (since s (clientStep f a s))"
    using put get del hc hl tick by (cases a) (auto simp: clientStep_def)
  have fail: "Sent x False \<in> set (since s (processQueue f s)) \<longrightarrow> \<not> available (processQueue f s)"
  proof
    assume m: "Sent x False \<in> set (since s (processQueue f s))"
    obtain b s1 where h: "healthCheck f s = (b, s1)" by (cases "healthCheck f s")
    note fr = healthCheck_frame[OF h]
    show "\<not> available (processQueue f s)"
    proof (cases "available s")
      case True
      with m show ?thesis by (simp add: since_processQueue processQueue_def sent_failed_unavailable)
    next
      case False
      with m h have b and "Sent x False \<in> set (since s1 (processItems f (readQueue (queue s)) s1))"
        by (auto simp: since_processQueue split: if_splits)
      with False h fr sent_failed_unavailable[of x s1 f "readQueue (queue s)"]
      show ?thesis by (simp add: processQueue_def)
    qed
  qed
  from rearm put get del hc fail show ?thesis by blast
qed

text \<open>
  C7 (as stated, refuted): a read that fails while the flag is true leaves it true.
\<close>

theorem failed_read_keeps_flag_counterexample:
  "fst (obsidianGet failFetch ''n1'' exClient) = None
   \<and> available exClient
   \<and> available (snd (obsidianGet failFetch ''n1'' exClient))"
  by (simp add: obsidianGet_def doFetch_def failFetch_def exClient_def)

theorem available_flag_transitions_witness:
  "\<not> available exClientDown
   \<and> available (clientStep okFetch DoHealthCheck exClientDown)
   \<and> HealthChecked True \<in> set (since exClientDown (clientStep okFetch DoHealthCheck exClientDown))
   \<and> Sent exItemB False \<in> set (since exClient (processQueue failFetch exClient))
   \<and> \<not> available (processQueue failFetch exClient)"
proof -
  have down: "\<not> available exClientDown" by (simp add: exClientDown_def)
  have up: "available (clientStep okFetch DoHealthCheck exClientDown)"
    by (simp add: clientStep_def healthCheck_def doFetch_def okFetch_def ok_def exClientDown_def)
  have sent: "Sent exItemB False \<in> set (since exClient (processQueue failFetch exClient))"
    by (simp add: since_def exClient_def exDir_def exItemA_def exItemB_def failFetch_def
      processQueue_def readQueue_def parsed_def endsWith_def List.map_filter_def
      shouldDiscard_def MAX_RETRIES_def processItem_def obsidianDelete_def obsidianPut_def
      doFetch_def updateRetriesS_def updateRetries_def fileName_def)
  from available_flag_transitions [of exClientDown okFetch DoHealthCheck] down up
  have 1: "HealthChecked True \<in> set (since exClientDown (clientStep okFetch DoHealthCheck exClientDown))"
    by blast
  from available_flag_transitions [of exClient failFetch DoTick _ _ exItemB] sent
  have 2: "\<not> available (processQueue failFetch exClient)"
    by blast
  from down up 1 sent 2 show ?thesis by blast
qed

section \<open>Removal of queue records\<close>

lemma endsWith_fileName: "endsWith ''.json'' (fileName i)"
  by (simp add: endsWith_def fileName_def)

lemma set_parsed:
  "set (parsed d) = {x. \<exists>n. (n, Some x) \<in> set d \<and> endsWith ''.json'' n}"
  by (auto simp: parsed_def List.map_filter_def) force

lemma set_readQueue: "set (readQueue d) = set (parsed d)"
  by (simp add: readQueue_def)

lemma wfQueue_name: "wfQueue d \<Longrightarrow> (n, Some x) \<in> set d \<Longrightarrow> n = fileName (id_q x)"
  by (auto simp: wfQueue_def list_all_iff)

lemma wfQueue_held:
  assumes "wfQueue d" "map_of d n = Some (Some x)"
  shows "n = fileName (id_q x) \<and> x \<in> set (readQueue d)"
proof -
  from assms(2) have m: "(n, Some x) \<in> set d" by (rule map_of_SomeD)
  from wfQueue_name[OF assms(1) m] have n: "n = fileName (id_q x)" .
  with m have "x \<in> set (parsed d)"
    unfolding set_parsed using endsWith_fileName by blast
  with n show ?thesis by (simp add: set_readQueue)
qed

lemma wfQueue_item:
  assumes "wfQueue d" "y \<in> set (readQueue d)"
  shows "map_of d (fileName (id_q y)) = Some (Some y)"
proof -
  from assms(2) obtain n where m: "(n, Some y) \<in> set d"
    unfolding set_readQueue set_parsed by blast
  from wfQueue_name[OF assms(1) m] m assms(1) show ?thesis
    by (simp add: wfQueue_def)
qed

lemma wfQueue_distinct_ids:
  assumes "wfQueue d"
  shows "distinct (map id_q (readQueue d))"
proof -
  have "wfQueue d \<Longrightarrow> distinct (map id_q (parsed d))"
  proof (induction d)
    case Nil
    then show ?case by (simp add: parsed_def List.map_filter_def)
  next
    case (Cons f d)
    from Cons.prems have wd: "wfQueue d" by (simp add: wfQueue_def)
    note ih = Cons.IH[OF wd]
    obtain n c where f: "f = (n, c)" by (cases f)
    show ?case
    proof (cases "endsWith ''.json'' n \<and> c \<noteq> None")
      case False
      then have "parsed (f # d) = parsed d"
        by (auto simp: f parsed_def List.map_filter_def)
      with ih show ?thesis by simp
    next
      case True
      then obtain x where c: "c = Some x" by auto
      with True have p: "parsed (f # d) = x # parsed d"
        by (simp add: f parsed_def List.map_filter_def)
      from Cons.prems f c have n: "n = fileName (id_q x)" and fresh: "n \<notin> fst ` set d"
        by (auto simp: wfQueue_def)
      have "id_q x \<notin> id_q ` set (parsed d)"
      proof
        assume "id_q x \<in> id_q ` set (parsed d)"
        then obtain y n' where y: "(n', Some y) \<in> set d" "id_q y = id_q x"
          unfolding set_parsed by auto
        from wfQueue_name[OF wd y(1)] y(2) n have "n' = n" by simp
        with y(1) fresh show False by force
      qed
      with ih p show ?thesis by simp
    qed
  qed
  from this[OF assms] have "distinct (map id_q (parsed d))" .
  moreover have "mset (map id_q (readQueue d)) = mset (map id_q (parsed d))"
    by (simp add: readQueue_def)
  ultimately show ?thesis by (metis mset_eq_imp_distinct_iff)
qed

lemma dequeued_is_item:
  "Dequeued i \<in> set (since s (processItems f items s)) \<Longrightarrow> i \<in> id_q ` set items"
proof (induction items arbitrary: s)
  case Nil
  then show ?case by (simp add: since_refl)
next
  case (Cons x xs)
  from Cons.prems Cons.IH show ?case
    by (auto simp: since_processItems_Cons simp del: processItems.simps split: if_splits)
qed

lemma sent_is_live_item:
  "Sent y b \<in> set (since s (processItems f items s)) \<Longrightarrow> y \<in> set items \<and> \<not> shouldDiscard y"
proof (induction items arbitrary: s)
  case Nil
  then show ?case by (simp add: since_refl)
next
  case (Cons x xs)
  from Cons.prems Cons.IH show ?case
    by (auto simp: since_processItems_Cons simp del: processItems.simps split: if_splits)
qed

lemma dequeued_at_most_once:
  "distinct (map id_q items) \<Longrightarrow>
   count_list (since s (processItems f items s)) (Dequeued i) \<le> 1"
proof (induction items arbitrary: s)
  case Nil
  then show ?case by (simp add: since_refl)
next
  case (Cons x xs)
  from Cons.prems have d: "distinct (map id_q xs)" and fresh: "id_q x \<notin> id_q ` set xs" by auto
  have none: "i = id_q x \<Longrightarrow> count_list (since s' (processItems f xs s')) (Dequeued i) = 0" for s'
    using dequeued_is_item[of i s' f xs] fresh by (auto simp: count_list_0_iff)
  show ?case
    using Cons.IH[OF d] none
    by (cases "i = id_q x")
       (auto simp: since_processItems_Cons simp del: processItems.simps)
qed

lemma dequeued_reason:
  "distinct (map id_q items) \<Longrightarrow> y \<in> set items \<Longrightarrow>
   Dequeued (id_q y) \<in> set (since s (processItems f items s)) \<Longrightarrow>
   shouldDiscard y \<or> Sent y True \<in> set (since s (processItems f items s))"
proof (induction items arbitrary: s)
  case Nil
  then show ?case by simp
next
  case (Cons x xs)
  from Cons.prems(1) have d: "distinct (map id_q xs)" and fresh: "id_q x \<notin> id_q ` set xs" by auto
  show ?case
  proof (cases "y = x")
    case True
    with Cons.prems(3) show ?thesis
      by (auto simp: since_processItems_Cons simp del: processItems.simps split: if_splits)
  next
    case False
    with Cons.prems(2) have yin: "y \<in> set xs" by simp
    with fresh have ne: "id_q y \<noteq> id_q x" by (metis image_eqI)
    from Cons.prems(3) ne Cons.IH[OF d yin] show ?thesis
      by (auto simp: since_processItems_Cons simp del: processItems.simps split: if_splits)
  qed
qed

lemma dequeued_file_gone:
  "distinct (map id_q items) \<Longrightarrow>
   Dequeued i \<in> set (since s (processItems f items s)) \<Longrightarrow>
   map_of (queue (processItems f items s)) (fileName i) = None"
proof (induction items arbitrary: s)
  case Nil
  then show ?case by (simp add: since_refl)
next
  case (Cons x xs)
  from Cons.prems(1) have d: "distinct (map id_q xs)" and fresh: "id_q x \<notin> id_q ` set xs" by auto
  obtain b s1 where p: "processItem f x s = (b, s1)" by (cases "processItem f x s")
  note fr = processItem_frame[OF p]
  have gone: "map_of (queue (processItems f xs (dequeueS (id_q x) s'))) (fileName (id_q x)) = None"
    for s' :: "'a client"
  proof -
    from fresh have "fileName (id_q x) \<notin> (\<lambda>i. fileName (id_q i)) ` set xs"
      by (auto simp: fileName_inj)
    from processItems_untouched[OF this, of f "dequeueS (id_q x) s'"] show ?thesis
      by (simp add: dequeueS_def dequeue_def map_of_unlink)
  qed
  show ?case
  proof (cases "shouldDiscard x")
    case True
    let ?s2 = "dequeueS (id_q x) s"
    have res: "processItems f (x # xs) s = processItems f xs ?s2" using True by simp
    from Cons.prems(2) True
    have "i = id_q x \<or> Dequeued i \<in> set (since ?s2 (processItems f xs ?s2))"
      by (auto simp: since_processItems_Cons simp del: processItems.simps)
    then show ?thesis unfolding res using gone[of s] Cons.IH[OF d, of ?s2] by auto
  next
    case False
    show ?thesis
    proof (cases b)
      case True
      let ?s2 = "dequeueS (id_q x) s1"
      have res: "processItems f (x # xs) s = processItems f xs ?s2"
        using False True p by simp
      from Cons.prems(2) False True p
      have "i = id_q x \<or> Dequeued i \<in> set (since ?s2 (processItems f xs ?s2))"
        by (auto simp: since_processItems_Cons simp del: processItems.simps)
      then show ?thesis unfolding res using gone[of s1] Cons.IH[OF d, of ?s2] by auto
    next
      case b: False
      with Cons.prems(2) False p show ?thesis
        by (auto simp: since_processItems_Cons simp del: processItems.simps)
    qed
  qed
qed

lemma undequeued_file_kept:
  "Dequeued i \<notin> set (since s (processItems f items s)) \<Longrightarrow>
   map_of (queue (processItems f items s)) (fileName i) = map_of (queue s) (fileName i)
   \<or> (\<exists>y\<in>set items. id_q y = i \<and>
         map_of (queue (processItems f items s)) (fileName i)
           = Some (Some (y\<lparr>retries := retries y + 1\<rparr>)))"
proof (induction items arbitrary: s)
  case Nil
  then show ?case by simp
next
  case (Cons x xs)
  obtain b s1 where p: "processItem f x s = (b, s1)" by (cases "processItem f x s")
  note fr = processItem_frame[OF p]
  show ?case
  proof (cases "shouldDiscard x")
    case True
    let ?s2 = "dequeueS (id_q x) s"
    from Cons.prems True have ne: "i \<noteq> id_q x"
      and rest: "Dequeued i \<notin> set (since ?s2 (processItems f xs ?s2))"
      by (auto simp: since_processItems_Cons simp del: processItems.simps)
    from ne have same: "map_of (queue ?s2) (fileName i) = map_of (queue s) (fileName i)"
      by (simp add: dequeueS_def dequeue_def map_of_unlink fileName_inj)
    from Cons.IH[OF rest] same True show ?thesis by auto
  next
    case False
    show ?thesis
    proof (cases b)
      case True
      let ?s2 = "dequeueS (id_q x) s1"
      from Cons.prems False True p have ne: "i \<noteq> id_q x"
        and rest: "Dequeued i \<notin> set (since ?s2 (processItems f xs ?s2))"
        by (auto simp: since_processItems_Cons simp del: processItems.simps)
      from ne fr have same: "map_of (queue ?s2) (fileName i) = map_of (queue s) (fileName i)"
        by (simp add: dequeueS_def dequeue_def map_of_unlink fileName_inj)
      from Cons.IH[OF rest] same False True p show ?thesis by auto
    next
      case b: False
      with False p fr show ?thesis
        by (auto simp: updateRetriesS_def updateRetries_def map_of_writeFile fileName_inj)
    qed
  qed
qed

lemma wfQueue_unlink: "wfQueue d \<Longrightarrow> wfQueue (unlink n d)"
  by (simp add: wfQueue_def unlink_def distinct_map_filter list_all_iff)

lemma map_fst_writeFile:
  "map fst (writeFile n c d) = (if n \<in> fst ` set d then map fst d else map fst d @ [n])"
  by (induction d) auto

lemma set_writeFile: "set (writeFile n c d) \<subseteq> insert (n, c) (set d)"
  by (induction d) auto

lemma wfQueue_writeFile:
  assumes "wfQueue d"
  shows "wfQueue (writeFile (fileName (id_q y)) (Some y) d)"
proof -
  from assms have "distinct (map fst (writeFile (fileName (id_q y)) (Some y) d))"
    by (auto simp: wfQueue_def map_fst_writeFile)
  moreover from assms set_writeFile[of "fileName (id_q y)" "Some y" d]
  have "list_all (\<lambda>f. case snd f of None \<Rightarrow> True | Some x \<Rightarrow> fst f = fileName (id_q x))
          (writeFile (fileName (id_q y)) (Some y) d)"
    by (auto simp: wfQueue_def list_all_iff)
  ultimately show ?thesis by (simp add: wfQueue_def)
qed

lemma wfQueue_processItems:
  "wfQueue (queue s) \<Longrightarrow> wfQueue (queue (processItems f items s))"
proof (induction items arbitrary: s)
  case Nil
  then show ?case by simp
next
  case (Cons x xs)
  obtain b s1 where p: "processItem f x s = (b, s1)" by (cases "processItem f x s")
  note fr = processItem_frame[OF p]
  have a: "wfQueue (queue (dequeueS (id_q x) s))"
    using Cons.prems by (simp add: dequeueS_def dequeue_def wfQueue_unlink)
  have b: "wfQueue (queue (dequeueS (id_q x) s1))"
    using Cons.prems fr by (simp add: dequeueS_def dequeue_def wfQueue_unlink)
  have c: "wfQueue (queue (updateRetriesS x (s1\<lparr>available := False\<rparr>)))"
    using Cons.prems fr wfQueue_writeFile[of "queue s" "x\<lparr>retries := retries x + 1\<rparr>"]
    by (simp add: updateRetriesS_def updateRetries_def)
  from Cons.IH[OF a] Cons.IH[OF b] c p show ?case by simp
qed

lemma wfQueue_processQueue:
  "wfQueue (queue s) \<Longrightarrow> wfQueue (queue (processQueue f s))"
  using healthCheck_frame[of f s]
  by (cases "healthCheck f s") (auto simp: processQueue_def wfQueue_processItems)

lemma tick_core:
  fixes f :: "'w fetch" and s0 :: "'w client"
  assumes wf: "wfQueue (queue s0)" and held: "map_of (queue s0) n = Some (Some x)"
  defines "s' \<equiv> processItems f (readQueue (queue s0)) s0"
  defines "T \<equiv> since s0 s'"
  shows "count_list T (Dequeued (id_q x)) \<le> 1
    \<and> (map_of (queue s') n = None \<longleftrightarrow> Dequeued (id_q x) \<in> set T)
    \<and> (Dequeued (id_q x) \<in> set T \<longrightarrow>
         (shouldDiscard x \<and> (\<forall>b. Sent x b \<notin> set T))
         \<or> (\<not> shouldDiscard x \<and> Sent x True \<in> set T))
    \<and> (Dequeued (id_q x) \<notin> set T \<longrightarrow>
         (\<exists>r. retries x \<le> r \<and> map_of (queue s') n = Some (Some (x\<lparr>retries := r\<rparr>))))"
proof -
  let ?items = "readQueue (queue s0)"
  from wfQueue_held[OF wf held] have n: "n = fileName (id_q x)" and xin: "x \<in> set ?items"
    by simp_all
  note dist = wfQueue_distinct_ids[OF wf]
  have once: "count_list T (Dequeued (id_q x)) \<le> 1"
    unfolding T_def s'_def by (rule dequeued_at_most_once[OF dist])
  have kept: "\<exists>r. retries x \<le> r \<and> map_of (queue s') n = Some (Some (x\<lparr>retries := r\<rparr>))"
    if nd: "Dequeued (id_q x) \<notin> set T"
  proof -
    from undequeued_file_kept[OF nd[unfolded T_def s'_def]]
    consider (same) "map_of (queue s') n = map_of (queue s0) n"
      | (retry) y where "y \<in> set ?items" "id_q y = id_q x"
          "map_of (queue s') n = Some (Some (y\<lparr>retries := retries y + 1\<rparr>))"
      unfolding s'_def n by blast
    then show ?thesis
    proof cases
      case same
      with held have "map_of (queue s') n = Some (Some (x\<lparr>retries := retries x\<rparr>))" by simp
      then show ?thesis by blast
    next
      case retry
      from wfQueue_item[OF wf retry(1)] retry(2) held n have "y = x" by simp
      with retry(3) show ?thesis by (intro exI[of _ "retries x + 1"]) simp
    qed
  qed
  have gone: "map_of (queue s') n = None" if "Dequeued (id_q x) \<in> set T"
    using dequeued_file_gone[OF dist that[unfolded T_def s'_def]] unfolding s'_def n .
  have iff: "map_of (queue s') n = None \<longleftrightarrow> Dequeued (id_q x) \<in> set T"
    using gone kept by fastforce
  have why: "(shouldDiscard x \<and> (\<forall>b. Sent x b \<notin> set T))
         \<or> (\<not> shouldDiscard x \<and> Sent x True \<in> set T)"
    if dq: "Dequeued (id_q x) \<in> set T"
  proof (cases "shouldDiscard x")
    case True
    then have "\<forall>b. Sent x b \<notin> set T"
      unfolding T_def s'_def using sent_is_live_item by blast
    with True show ?thesis by simp
  next
    case False
    with dequeued_reason[OF dist xin dq[unfolded T_def s'_def]]
    show ?thesis unfolding T_def s'_def by simp
  qed
  from once iff why kept show ?thesis by blast
qed

text \<open>The empty directory is well-formed, and \<open>enqueue\<close> keeps it so.\<close>

lemma wfQueue_empty: "wfQueue []"
  by (simp add: wfQueue_def)

lemma wfQueue_enqueue: "wfQueue d \<Longrightarrow> wfQueue (enqueue uuid now t p c d)"
  unfolding enqueue_def
  using wfQueue_writeFile[of d "\<lparr>id_q = uuid, type_q = t, path = p, content = c, retries = 0, createdAt = now\<rparr>"]
  by simp

lemma processItem_sink:
  "fst (processItem f x s) =
     (case fst (f (net s)
          \<lparr>reqMethod = (if type_q x = Delete then DELETE else PUT), reqPath = vault (path x),
           reqBody = (if type_q x = Delete then [] else content x)\<rparr>) of
        None \<Rightarrow> False
      | Some r \<Rightarrow> ok r \<or> (type_q x = Delete \<and> status r = 404))"
  by (auto simp: processItem_def obsidianDelete_def obsidianPut_def doFetch_def
      split: prod.splits option.splits)

lemma processItems_stuck:
  "available s \<Longrightarrow> \<not> available (processItems f pre s) \<Longrightarrow>
   processItems f (pre @ post) s = processItems f pre s"
proof (induction pre arbitrary: s)
  case Nil
  then show ?case by simp
next
  case (Cons x xs)
  obtain b s1 where p: "processItem f x s = (b, s1)" by (cases "processItem f x s")
  from processItem_frame[OF p] Cons.prems(1) have a1: "available (dequeueS (id_q x) s1)"
    by (simp add: dequeueS_def)
  from Cons.prems(1) have a0: "available (dequeueS (id_q x) s)"
    by (simp add: dequeueS_def)
  show ?case
  proof (cases "shouldDiscard x")
    case True
    with Cons.prems(2) have "\<not> available (processItems f xs (dequeueS (id_q x) s))" by simp
    from Cons.IH[OF a0 this] True show ?thesis by simp
  next
    case False
    show ?thesis
    proof (cases b)
      case True
      with Cons.prems(2) False p
      have "\<not> available (processItems f xs (dequeueS (id_q x) s1))" by simp
      from Cons.IH[OF a1 this] True False p show ?thesis by simp
    next
      case b: False
      with False p show ?thesis by simp
    qed
  qed
qed

lemma since_trans:
  "log s1 = log s @ A \<Longrightarrow> log s2 = log s1 @ B \<Longrightarrow> since s s2 = since s s1 @ since s1 s2"
  by (simp add: since_def)

lemma since_processItems_append:
  assumes "available (processItems f pre s)"
  shows "since s (processItems f (pre @ post) s) =
     since s (processItems f pre s)
     @ since (processItems f pre s) (processItems f post (processItems f pre s))"
proof -
  from log_processItems[of f pre s] obtain A where A: "log (processItems f pre s) = log s @ A"
    by blast
  from log_processItems[of f post "processItems f pre s"] obtain B
    where B: "log (processItems f post (processItems f pre s)) = log (processItems f pre s) @ B"
    by blast
  from since_trans[OF A B] show ?thesis unfolding processItems_append[OF assms] .
qed

lemma tick_position:
  fixes f :: "'w fetch" and s0 :: "'w client"
  assumes dist: "distinct (map id_q (pre @ x # post))" and av: "available s0"
  defines "sk \<equiv> processItems f pre s0"
  defines "s' \<equiv> processItems f (pre @ x # post) s0"
  defines "T \<equiv> since s0 s'"
  shows "(\<not> available sk \<longrightarrow>
            Dequeued (id_q x) \<notin> set T \<and> (\<forall>b. Sent x b \<notin> set T)
            \<and> map_of (queue s') (fileName (id_q x)) = map_of (queue s0) (fileName (id_q x)))
    \<and> (available sk \<and> shouldDiscard x \<longrightarrow>
            Dequeued (id_q x) \<in> set T \<and> (\<forall>b. Sent x b \<notin> set T))
    \<and> (available sk \<and> \<not> shouldDiscard x \<and> fst (processItem f x sk) \<longrightarrow>
            Sent x True \<in> set T \<and> Dequeued (id_q x) \<in> set T)
    \<and> (available sk \<and> \<not> shouldDiscard x \<and> \<not> fst (processItem f x sk) \<longrightarrow>
            Sent x False \<in> set T \<and> Sent x True \<notin> set T \<and> Dequeued (id_q x) \<notin> set T
            \<and> map_of (queue s') (fileName (id_q x))
                = Some (Some (x\<lparr>retries := retries x + 1\<rparr>)))"
proof -
  from dist have fresh: "id_q x \<notin> id_q ` set pre" and xpre: "x \<notin> set pre" by auto
  have nodq: "Dequeued (id_q x) \<notin> set (since s0 sk)"
    unfolding sk_def using dequeued_is_item[of "id_q x" s0 f pre] fresh by blast
  have nosent: "Sent x b \<notin> set (since s0 sk)" for b
    unfolding sk_def using sent_is_live_item[of x b s0 f pre] xpre by blast
  have untouched: "map_of (queue sk) (fileName (id_q x)) = map_of (queue s0) (fileName (id_q x))"
    unfolding sk_def using fresh
    by (intro processItems_untouched) (auto simp: fileName_inj)
  have 1: "\<not> available sk \<longrightarrow>
            Dequeued (id_q x) \<notin> set T \<and> (\<forall>b. Sent x b \<notin> set T)
            \<and> map_of (queue s') (fileName (id_q x)) = map_of (queue s0) (fileName (id_q x))"
  proof
    assume "\<not> available sk"
    then have "s' = sk" unfolding s'_def sk_def using processItems_stuck[OF av] by blast
    with nodq nosent untouched show "Dequeued (id_q x) \<notin> set T \<and> (\<forall>b. Sent x b \<notin> set T)
            \<and> map_of (queue s') (fileName (id_q x)) = map_of (queue s0) (fileName (id_q x))"
      by (simp add: T_def)
  qed
  have split: "T = since s0 sk @ since sk (processItems f (x # post) sk)" if "available sk"
    unfolding T_def s'_def sk_def using that[unfolded sk_def] by (rule since_processItems_append)
  have 2: "available sk \<and> shouldDiscard x \<longrightarrow>
            Dequeued (id_q x) \<in> set T \<and> (\<forall>b. Sent x b \<notin> set T)"
  proof
    assume a: "available sk \<and> shouldDiscard x"
    then have "Dequeued (id_q x) \<in> set T"
      using split by (simp add: since_processItems_Cons del: processItems.simps)
    moreover have "\<forall>b. Sent x b \<notin> set T"
      unfolding T_def s'_def using a sent_is_live_item by blast
    ultimately show "Dequeued (id_q x) \<in> set T \<and> (\<forall>b. Sent x b \<notin> set T)" by simp
  qed
  have 3: "available sk \<and> \<not> shouldDiscard x \<and> fst (processItem f x sk) \<longrightarrow>
            Sent x True \<in> set T \<and> Dequeued (id_q x) \<in> set T"
    using split by (simp add: since_processItems_Cons del: processItems.simps)
  have 4: "available sk \<and> \<not> shouldDiscard x \<and> \<not> fst (processItem f x sk) \<longrightarrow>
            Sent x False \<in> set T \<and> Sent x True \<notin> set T \<and> Dequeued (id_q x) \<notin> set T
            \<and> map_of (queue s') (fileName (id_q x))
                = Some (Some (x\<lparr>retries := retries x + 1\<rparr>))"
  proof
    assume a: "available sk \<and> \<not> shouldDiscard x \<and> \<not> fst (processItem f x sk)"
    then have T: "T = since s0 sk @ [Sent x False, Retried (id_q x)]"
      using split by (simp add: since_processItems_Cons del: processItems.simps)
    obtain b s1 where p: "processItem f x sk = (b, s1)" by (cases "processItem f x sk")
    from a have "s' = processItems f (x # post) sk"
      unfolding s'_def sk_def using processItems_append by blast
    with a p have "s' = updateRetriesS x (s1\<lparr>available := False\<rparr>)" by simp
    then have "map_of (queue s') (fileName (id_q x))
                = Some (Some (x\<lparr>retries := retries x + 1\<rparr>))"
      by (simp add: updateRetriesS_def updateRetries_def map_of_writeFile)
    with T nodq nosent show "Sent x False \<in> set T \<and> Sent x True \<notin> set T \<and> Dequeued (id_q x) \<notin> set T
            \<and> map_of (queue s') (fileName (id_q x))
                = Some (Some (x\<lparr>retries := retries x + 1\<rparr>))" by simp
  qed
  from 1 2 3 4 show ?thesis by blast
qed

lemma count_list_one: "y \<in> set ys \<Longrightarrow> count_list ys y \<le> 1 \<Longrightarrow> count_list ys y = 1"
  using count_list_0_iff[of ys y] by linarith

lemma tick_reached:
  fixes f :: "'w fetch" and s0 :: "'w client"
  assumes wf: "wfQueue (queue s0)" and held: "map_of (queue s0) n = Some (Some x)"
    and av: "available s0" and pending: "readQueue (queue s0) = pre @ x # post"
  defines "s' \<equiv> processItems f (readQueue (queue s0)) s0"
  defines "T \<equiv> since s0 s'"
  defines "sk \<equiv> processItems f pre s0"
  shows "(if \<not> available sk
          then Dequeued (id_q x) \<notin> set T \<and> (\<forall>b. Sent x b \<notin> set T)
               \<and> map_of (queue s') n = Some (Some x)
          else if shouldDiscard x
          then count_list T (Dequeued (id_q x)) = 1 \<and> (\<forall>b. Sent x b \<notin> set T)
               \<and> map_of (queue s') n = None
          else if fst (processItem f x sk)
          then Sent x True \<in> set T \<and> count_list T (Dequeued (id_q x)) = 1
               \<and> map_of (queue s') n = None
          else Sent x False \<in> set T \<and> Sent x True \<notin> set T \<and> Dequeued (id_q x) \<notin> set T
               \<and> map_of (queue s') n = Some (Some (x\<lparr>retries := retries x + 1\<rparr>)))"
proof -
  from wfQueue_held[OF wf held] have n: "n = fileName (id_q x)" by simp
  from wfQueue_distinct_ids[OF wf] pending have dist: "distinct (map id_q (pre @ x # post))"
    by simp
  note core = tick_core[OF wf held, of f, folded s'_def, folded T_def]
  then have once: "count_list T (Dequeued (id_q x)) \<le> 1"
    and gone: "map_of (queue s') n = None \<longleftrightarrow> Dequeued (id_q x) \<in> set T"
    by blast+
  note pos = tick_position[OF dist av, of f, folded pending, folded s'_def, folded T_def,
      folded sk_def]
  show ?thesis
  proof (cases "available sk")
    case False
    with pos held n show ?thesis by simp
  next
    case True
    show ?thesis
    proof (cases "shouldDiscard x")
      case d: True
      with True pos have "Dequeued (id_q x) \<in> set T" and "\<forall>b. Sent x b \<notin> set T" by blast+
      with True d gone count_list_one[OF _ once] show ?thesis by simp
    next
      case d: False
      show ?thesis
      proof (cases "fst (processItem f x sk)")
        case b: True
        with True d pos have "Dequeued (id_q x) \<in> set T" and "Sent x True \<in> set T" by blast+
        with True d b gone count_list_one[OF _ once] show ?thesis by simp
      next
        case b: False
        with True d pos n show ?thesis by simp
      qed
    qed
  qed
qed

text \<open>
  C3: one tick, for a record \<open>x\<close> held in file \<open>n\<close> of a well-formed queue directory.
  \<open>shouldDiscard\<close> holds exactly from 50 retries on. The record is dequeued at most
  once, and its file is gone after the tick exactly when it was dequeued. When it
  was dequeued, either it was due for discard and no sink call was made for it, or
  the sink call for it succeeded; and a successful sink call for it is followed by
  its dequeue. When it was not dequeued, the file still holds the record, with a
  retry count that has not decreased.

  By the position of \<open>x\<close> in the pending list, once the tick processes items (the
  flag is true, or the health check succeeded): when a sink call failed for an item
  before \<open>x\<close>, nothing is done for \<open>x\<close> and its file is as it was; otherwise, when
  \<open>x\<close> is due for discard, it is dequeued exactly once with no sink call and its file
  is gone; otherwise the sink is called for \<open>x\<close> (a \<open>PUT\<close> of its content, or a
  \<open>DELETE\<close> for a delete item), and when the response is a success (status 200 to
  299, or 404 for a \<open>DELETE\<close>) the record is dequeued exactly once and its file is
  gone, and when it is not, or the call throws, the record is not dequeued and its
  file holds it with one more retry. When the health check fails nothing is done.
  The directory stays well-formed.
\<close>

theorem record_removed_once_on_success_or_discard:
  fixes f :: "'w fetch" and s :: "'w client" and x :: QueueItem
  defines "start \<equiv> (if available s then s else snd (healthCheck f s))"
  defines "T \<equiv> since s (processQueue f s)"
  defines "confirms w \<equiv>
     (case fst (f w \<lparr>reqMethod = (if type_q x = Delete then DELETE else PUT),
                      reqPath = vault (path x),
                      reqBody = (if type_q x = Delete then [] else content x)\<rparr>) of
        None \<Rightarrow> False
      | Some r \<Rightarrow> ok r \<or> (type_q x = Delete \<and> status r = 404))"
  assumes wf: "wfQueue (queue s)" and held: "map_of (queue s) n = Some (Some x)"
  shows "(shouldDiscard x \<longleftrightarrow> 50 \<le> retries x)
    \<and> x \<in> set (readQueue (queue s))
    \<and> count_list T (Dequeued (id_q x)) \<le> 1
    \<and> (map_of (queue (processQueue f s)) n = None \<longleftrightarrow> Dequeued (id_q x) \<in> set T)
    \<and> (Dequeued (id_q x) \<in> set T \<longrightarrow>
         (shouldDiscard x \<and> (\<forall>b. Sent x b \<notin> set T))
         \<or> (\<not> shouldDiscard x \<and> Sent x True \<in> set T))
    \<and> (Dequeued (id_q x) \<notin> set T \<longrightarrow>
         (\<exists>r. retries x \<le> r
              \<and> map_of (queue (processQueue f s)) n = Some (Some (x\<lparr>retries := r\<rparr>))))
    \<and> (Sent x True \<in> set T \<longrightarrow> Dequeued (id_q x) \<in> set T)
    \<and> (\<forall>pre post. available start \<and> readQueue (queue s) = pre @ x # post \<longrightarrow>
         (if \<not> available (processItems f pre start)
          then Dequeued (id_q x) \<notin> set T \<and> (\<forall>b. Sent x b \<notin> set T)
               \<and> map_of (queue (processQueue f s)) n = Some (Some x)
          else if shouldDiscard x
          then count_list T (Dequeued (id_q x)) = 1 \<and> (\<forall>b. Sent x b \<notin> set T)
               \<and> map_of (queue (processQueue f s)) n = None
          else if confirms (net (processItems f pre start))
          then Sent x True \<in> set T \<and> count_list T (Dequeued (id_q x)) = 1
               \<and> map_of (queue (processQueue f s)) n = None
          else Sent x False \<in> set T \<and> Sent x True \<notin> set T \<and> Dequeued (id_q x) \<notin> set T
               \<and> map_of (queue (processQueue f s)) n
                   = Some (Some (x\<lparr>retries := retries x + 1\<rparr>))))
    \<and> (\<not> available start \<longrightarrow> T = [HealthChecked False] \<and> queue (processQueue f s) = queue s)
    \<and> wfQueue (queue (processQueue f s))"
proof -
  note keep = wfQueue_processQueue[OF wf, of f]
  have disc: "shouldDiscard x \<longleftrightarrow> 50 \<le> retries x"
    by (simp add: shouldDiscard_def MAX_RETRIES_def)
  from wfQueue_held[OF wf held] have xin: "x \<in> set (readQueue (queue s))" by simp
  have conf: "fst (processItem f x s2) = confirms (net s2)" for s2
    unfolding confirms_def by (rule processItem_sink)
  obtain b s1 where h: "healthCheck f s = (b, s1)" by (cases "healthCheck f s")
  note fr = healthCheck_frame[OF h]
  have run: "count_list T (Dequeued (id_q x)) \<le> 1
    \<and> (map_of (queue (processQueue f s)) n = None \<longleftrightarrow> Dequeued (id_q x) \<in> set T)
    \<and> (Dequeued (id_q x) \<in> set T \<longrightarrow>
         (shouldDiscard x \<and> (\<forall>b. Sent x b \<notin> set T))
         \<or> (\<not> shouldDiscard x \<and> Sent x True \<in> set T))
    \<and> (Dequeued (id_q x) \<notin> set T \<longrightarrow>
         (\<exists>r. retries x \<le> r
              \<and> map_of (queue (processQueue f s)) n = Some (Some (x\<lparr>retries := r\<rparr>))))
    \<and> (Sent x True \<in> set T \<longrightarrow> Dequeued (id_q x) \<in> set T)
    \<and> (\<forall>pre post. available start \<and> readQueue (queue s) = pre @ x # post \<longrightarrow>
         (if \<not> available (processItems f pre start)
          then Dequeued (id_q x) \<notin> set T \<and> (\<forall>b. Sent x b \<notin> set T)
               \<and> map_of (queue (processQueue f s)) n = Some (Some x)
          else if shouldDiscard x
          then count_list T (Dequeued (id_q x)) = 1 \<and> (\<forall>b. Sent x b \<notin> set T)
               \<and> map_of (queue (processQueue f s)) n = None
          else if confirms (net (processItems f pre start))
          then Sent x True \<in> set T \<and> count_list T (Dequeued (id_q x)) = 1
               \<and> map_of (queue (processQueue f s)) n = None
          else Sent x False \<in> set T \<and> Sent x True \<notin> set T \<and> Dequeued (id_q x) \<notin> set T
               \<and> map_of (queue (processQueue f s)) n
                   = Some (Some (x\<lparr>retries := retries x + 1\<rparr>))))"
    if q0: "queue start = queue s" and av: "available start"
      and pq: "processQueue f s = processItems f (readQueue (queue start)) start"
      and T0: "T = hc @ since start (processQueue f s)"
      and hc: "hc = [] \<or> hc = [HealthChecked True]"
    for hc
  proof -
    let ?T0 = "since start (processQueue f s)"
    from wf held q0 have wf0: "wfQueue (queue start)"
      and held0: "map_of (queue start) n = Some (Some x)"
      by simp_all
    have m1: "Dequeued i \<in> set ?T0 \<longleftrightarrow> Dequeued i \<in> set T" for i
      using hc unfolding T0 by auto
    have m2: "Sent y c \<in> set ?T0 \<longleftrightarrow> Sent y c \<in> set T" for y c
      using hc unfolding T0 by auto
    have m3: "count_list ?T0 (Dequeued i) = count_list T (Dequeued i)" for i
      using hc unfolding T0 by auto
    note core = tick_core[OF wf0 held0, of f, folded pq, unfolded m1 m2 m3]
    have pos: "(if \<not> available (processItems f pre start)
          then Dequeued (id_q x) \<notin> set T \<and> (\<forall>b. Sent x b \<notin> set T)
               \<and> map_of (queue (processQueue f s)) n = Some (Some x)
          else if shouldDiscard x
          then count_list T (Dequeued (id_q x)) = 1 \<and> (\<forall>b. Sent x b \<notin> set T)
               \<and> map_of (queue (processQueue f s)) n = None
          else if confirms (net (processItems f pre start))
          then Sent x True \<in> set T \<and> count_list T (Dequeued (id_q x)) = 1
               \<and> map_of (queue (processQueue f s)) n = None
          else Sent x False \<in> set T \<and> Sent x True \<notin> set T \<and> Dequeued (id_q x) \<notin> set T
               \<and> map_of (queue (processQueue f s)) n
                   = Some (Some (x\<lparr>retries := retries x + 1\<rparr>)))"
      if pending: "readQueue (queue s) = pre @ x # post" for pre post
      using tick_reached[OF wf0 held0 av pending[folded q0], of f, folded pq,
          unfolded m1 m2 m3]
      unfolding conf .
    from xin obtain pre post where sp: "readQueue (queue s) = pre @ x # post"
      by (auto dest: split_list)
    have succ: "Sent x True \<in> set T \<longrightarrow> Dequeued (id_q x) \<in> set T"
      using pos[OF sp] count_list_0_iff[of T "Dequeued (id_q x)"]
      by (auto split: if_splits)
    from core succ pos show ?thesis by blast
  qed
  consider (up) "available s" | (rearmed) "\<not> available s" "b" | (down) "\<not> available s" "\<not> b"
    by blast
  then show ?thesis
  proof cases
    case up
    then have st: "start = s" by (simp add: start_def)
    from up have pq: "processQueue f s = processItems f (readQueue (queue start)) start"
      unfolding st by (simp add: processQueue_def)
    have t: "T = [] @ since start (processQueue f s)" by (simp add: T_def st)
    have av: "available start" using up st by simp
    then have last: "\<not> available start \<longrightarrow>
        T = [HealthChecked False] \<and> queue (processQueue f s) = queue s" by simp
    have q0: "queue start = queue s" by (simp add: st)
    note r = run[OF q0 av pq t disjI1[OF refl]]
    from disc xin r last keep show ?thesis
      apply (elim conjE)
      apply (intro conjI)
      apply assumption+
      done
  next
    case rearmed
    from fr have q0: "queue start = queue s" and st: "start = s1"
      using rearmed h by (simp_all add: start_def)
    from rearmed h q0 st have pq: "processQueue f s = processItems f (readQueue (queue start)) start"
      by (simp add: processQueue_def)
    from rearmed h have "since s (processQueue f s)
        = HealthChecked True # since s1 (processItems f (readQueue (queue s)) s1)"
      by (simp add: since_processQueue)
    with pq q0 st have t: "T = [HealthChecked True] @ since start (processQueue f s)"
      unfolding T_def by simp
    have av: "available start" using fr rearmed st by simp
    then have last: "\<not> available start \<longrightarrow>
        T = [HealthChecked False] \<and> queue (processQueue f s) = queue s" by simp
    note r = run[OF q0 av pq t disjI2[OF refl]]
    from disc xin r last keep show ?thesis
      apply (elim conjE)
      apply (intro conjI)
      apply assumption+
      done
  next
    case down
    from fr have q: "queue s1 = queue s" by simp
    from down h have pq: "processQueue f s = s1" and st: "start = s1"
      by (simp_all add: processQueue_def start_def)
    from down h have T: "T = [HealthChecked False]"
      unfolding T_def by (simp add: since_processQueue)
    from fr down have nav: "\<not> available start" unfolding st by simp
    have "map_of (queue s1) n = Some (Some (x\<lparr>retries := retries x\<rparr>))"
      using held q by simp
    then have "\<exists>r. retries x \<le> r \<and> map_of (queue s1) n = Some (Some (x\<lparr>retries := r\<rparr>))"
      by blast
    with disc xin held q keep[unfolded pq] nav show ?thesis unfolding T unfolding pq by simp
  qed
qed

theorem record_removed_once_on_success_or_discard_witness:
  "Sent exItemA True \<in> set (since exClient (processQueue okFetch exClient))
   \<and> count_list (since exClient (processQueue okFetch exClient)) (Dequeued ''a'') = 1
   \<and> map_of (queue (processQueue okFetch exClient)) ''a.json'' = None
   \<and> count_list (since (exClient\<lparr>queue := [(''c.json'', Some exItemC)]\<rparr>)
         (processQueue failFetch (exClient\<lparr>queue := [(''c.json'', Some exItemC)]\<rparr>)))
        (Dequeued ''c'') = 1
   \<and> Sent exItemC True \<notin> set (since (exClient\<lparr>queue := [(''c.json'', Some exItemC)]\<rparr>)
         (processQueue failFetch (exClient\<lparr>queue := [(''c.json'', Some exItemC)]\<rparr>)))
   \<and> map_of (queue (processQueue failFetch (exClient\<lparr>queue := [(''c.json'', Some exItemC)]\<rparr>)))
         ''c.json'' = None
   \<and> Sent exItemB False \<in> set (since exClient (processQueue failFetch exClient))
   \<and> map_of (queue (processQueue failFetch exClient)) ''b.json''
        = Some (Some (exItemB\<lparr>retries := 1\<rparr>))
   \<and> map_of (queue (processQueue failFetch exClient)) ''a.json'' = Some (Some exItemA)"
proof -
  let ?old = "exClient\<lparr>queue := [(''c.json'', Some exItemC)]\<rparr>"
  have wf: "wfQueue (queue exClient)"
    by (simp add: wfQueue_def exClient_def exDir_def exItemA_def exItemB_def fileName_def)
  have heldA: "map_of (queue exClient) ''a.json'' = Some (Some exItemA)"
    by (simp add: exClient_def exDir_def)
  have heldB: "map_of (queue exClient) ''b.json'' = Some (Some exItemB)"
    by (simp add: exClient_def exDir_def)
  have wf2: "wfQueue (queue ?old)"
    by (simp add: wfQueue_def exItemC_def fileName_def)
  have heldC: "map_of (queue ?old) ''c.json'' = Some (Some exItemC)"
    by simp
  have up: "available exClient" "available ?old" by (simp_all add: exClient_def)
  have pendA: "readQueue (queue exClient) = [exItemB] @ exItemA # []"
    and pendB: "readQueue (queue exClient) = [] @ exItemB # [exItemA]"
    by (simp_all add: exClient_def exDir_def exItemA_def exItemB_def readQueue_def parsed_def
        endsWith_def List.map_filter_def)
  have pendC: "readQueue (queue ?old) = [] @ exItemC # []"
    by (simp add: exItemC_def readQueue_def parsed_def endsWith_def List.map_filter_def)
  have live: "\<not> shouldDiscard exItemA" "\<not> shouldDiscard exItemB" "shouldDiscard exItemC"
    by (simp_all add: shouldDiscard_def MAX_RETRIES_def exItemA_def exItemB_def exItemC_def)
  have reachedOk: "available (processItems okFetch [exItemB] exClient)"
    by (simp add: live processItem_def obsidianDelete_def obsidianPut_def doFetch_def okFetch_def
        ok_def dequeueS_def up)
  have stuck: "\<not> available (processItems failFetch [exItemB] exClient)"
    by (simp add: live processItem_def obsidianDelete_def obsidianPut_def doFetch_def
        failFetch_def updateRetriesS_def)
  have ids: "id_q exItemA = ''a''" "id_q exItemC = ''c''" "retries exItemB = 0"
    by (simp_all add: exItemA_def exItemC_def exItemB_def)
  note a = record_removed_once_on_success_or_discard [OF wf heldA, of okFetch, THEN conjunct2, THEN conjunct2,
      THEN conjunct2, THEN conjunct2, THEN conjunct2, THEN conjunct2, THEN conjunct2,
      THEN conjunct1, rule_format, of "[exItemB]" "[]"]
  note c = record_removed_once_on_success_or_discard [OF wf2 heldC, of failFetch, THEN conjunct2, THEN conjunct2,
      THEN conjunct2, THEN conjunct2, THEN conjunct2, THEN conjunct2, THEN conjunct2,
      THEN conjunct1, rule_format, of "[]" "[]"]
  note b = record_removed_once_on_success_or_discard [OF wf heldB, of failFetch, THEN conjunct2, THEN conjunct2,
      THEN conjunct2, THEN conjunct2, THEN conjunct2, THEN conjunct2, THEN conjunct2,
      THEN conjunct1, rule_format, of "[]" "[exItemA]"]
  note d = record_removed_once_on_success_or_discard [OF wf heldA, of failFetch, THEN conjunct2, THEN conjunct2,
      THEN conjunct2, THEN conjunct2, THEN conjunct2, THEN conjunct2, THEN conjunct2,
      THEN conjunct1, rule_format, of "[exItemB]" "[]"]
  from a up pendA live reachedOk
  have 1: "Sent exItemA True \<in> set (since exClient (processQueue okFetch exClient))
   \<and> count_list (since exClient (processQueue okFetch exClient)) (Dequeued ''a'') = 1
   \<and> map_of (queue (processQueue okFetch exClient)) ''a.json'' = None"
    by (simp add: ids okFetch_def ok_def)
  from c up pendC live
  have 2: "count_list (since ?old (processQueue failFetch ?old)) (Dequeued ''c'') = 1
   \<and> Sent exItemC True \<notin> set (since ?old (processQueue failFetch ?old))
   \<and> map_of (queue (processQueue failFetch ?old)) ''c.json'' = None"
    by (simp add: ids)
  from b up pendB live
  have 3: "Sent exItemB False \<in> set (since exClient (processQueue failFetch exClient))
   \<and> map_of (queue (processQueue failFetch exClient)) ''b.json''
        = Some (Some (exItemB\<lparr>retries := 1\<rparr>))"
    by (simp add: ids failFetch_def)
  from d up pendA stuck
  have 4: "map_of (queue (processQueue failFetch exClient)) ''a.json'' = Some (Some exItemA)"
    by simp
  from 1 2 3 4 show ?thesis by simp
qed

section \<open>Properties of the slug\<close>
































lemma concat_splitRuns: "concat (splitRuns sep s) = filter (\<lambda>c. \<not> sep c) s"
proof (induction sep s rule: splitRuns.induct)
  case (1 sep)
  then show ?case by simp
next
  case (2 sep c cs)
  show ?case
  proof (cases "sep c")
    case True
    have "filter (\<lambda>c. \<not> sep c) (dropWhile sep cs) = filter (\<lambda>c. \<not> sep c) cs"
      by (induction cs) auto
    with True "2.IH"(1) show ?thesis by simp
  next
    case False
    with "2.IH"(2) show ?thesis by (cases "splitRuns sep cs") (auto split: list.splits)
  qed
qed







end
